theory Spec2Isabelle
  imports
    Main
    "HOL-Library.Word"
    "HOL-Library.Char_ord"
    "HOL-Library.List_Lexorder"
    "HOL-Library.Product_Lexorder"
begin

section \<open>Python string operations used by the tool\<close>

text \<open>
  Strings are lists of characters. \<open>lower\<close> is the case mapping of the ASCII letters,
  which leaves every other character unchanged. It stands for \<open>str.lower\<close> where the
  tool compares the outcome with an ASCII pattern (\<open>envidat.1\<close>, the three extensions
  of the second rule, \<open>true\<close>): no character outside ASCII is mapped by \<open>str.lower\<close> to
  a string that could take part in a match of these patterns. Where the lower-cased
  string is itself the result (the extension label of \<open>get_ext\<close>), the case mapping of
  Python is not fixed by this model: it is an argument \<open>str_lower\<close> of the function.
\<close>

definition lower_char :: "char \<Rightarrow> char" where
  "lower_char c =
     (case map_of (zip ''ABCDEFGHIJKLMNOPQRSTUVWXYZ'' ''abcdefghijklmnopqrstuvwxyz'') c of
        None \<Rightarrow> c
      | Some d \<Rightarrow> d)"

definition lower :: "string \<Rightarrow> string" where
  "lower s = map lower_char s"

text \<open>\<open>startswith p s\<close>: \<open>p\<close> is an initial segment of \<open>s\<close>.\<close>

fun startswith :: "string \<Rightarrow> string \<Rightarrow> bool" where
  "startswith [] s = True"
| "startswith (p # ps) [] = False"
| "startswith (p # ps) (c # cs) = (p = c \<and> startswith ps cs)"

text \<open>\<open>py_in p s\<close> is Python's \<open>p in s\<close> on strings: \<open>p\<close> occurs as a contiguous run.\<close>

fun py_in :: "string \<Rightarrow> string \<Rightarrow> bool" where
  "py_in p [] = (p = [])"
| "py_in p (c # cs) = (startswith p (c # cs) \<or> py_in p cs)"

text \<open>\<open>s.rstrip('/')\<close> and the last field of \<open>s.split('/')\<close>.\<close>

definition rstrip_slash :: "string \<Rightarrow> string" where
  "rstrip_slash s = rev (dropWhile (\<lambda>c. c = CHR ''/'') (rev s))"

definition split_slash_last :: "string \<Rightarrow> string" where
  "split_slash_last s = rev (takeWhile (\<lambda>c. c \<noteq> CHR ''/'') (rev s))"

text \<open>\<open>s.rfind(c)\<close> for a single character: the highest index of \<open>c\<close>, or \<open>-1\<close>.\<close>

definition rfind :: "string \<Rightarrow> char \<Rightarrow> int" where
  "rfind s c =
     (if c \<in> set s
      then int (length s) - 1 - int (length (takeWhile (\<lambda>x. x \<noteq> c) (rev s)))
      else - 1)"

text \<open>
  The slices \<open>p[:i]\<close> and \<open>p[i:]\<close> for an index \<open>i \<ge> 0\<close> (the only way the tool's
  path functions call them).
\<close>

definition slice_to :: "string \<Rightarrow> int \<Rightarrow> string" where
  "slice_to p i = take (nat i) p"

definition slice_from :: "string \<Rightarrow> int \<Rightarrow> string" where
  "slice_from p i = drop (nat i) p"

text \<open>
  \<open>os.path.splitext\<close> of the POSIX path module:
  \<^verbatim>\<open>
    sepIndex = p.rfind(sep)
    dotIndex = p.rfind(extsep)
    if dotIndex > sepIndex:
        # skip all leading dots
        filenameIndex = sepIndex + 1
        while filenameIndex < dotIndex:
            if p[filenameIndex:filenameIndex+1] != extsep:
                return p[:dotIndex], p[dotIndex:]
            filenameIndex += 1
    return p, p[:0]
  \<close>
  The loop is \<open>skip_dots\<close>: it answers whether a character other than the dot stands
  between \<open>filenameIndex\<close> and \<open>dotIndex\<close>.
\<close>

function skip_dots :: "string \<Rightarrow> int \<Rightarrow> int \<Rightarrow> bool" where
  "skip_dots p filenameIndex dotIndex =
     (if filenameIndex < dotIndex
      then (if slice_to (slice_from p filenameIndex) 1 \<noteq> ''.'' then True
            else skip_dots p (filenameIndex + 1) dotIndex)
      else False)"
  by pat_completeness auto
termination
  by (relation "measure (\<lambda>(p, f, d). nat (d - f))") auto

declare skip_dots.simps [simp del]

definition splitext :: "string \<Rightarrow> string \<times> string" where
  "splitext p =
     (let sepIndex = rfind p CHR ''/'';
          dotIndex = rfind p CHR ''.''
      in if dotIndex > sepIndex \<and> skip_dots p (sepIndex + 1) dotIndex
         then (slice_to p dotIndex, slice_from p dotIndex)
         else (p, []))"

text \<open>\<open>os.path.basename\<close> of the POSIX path module: \<open>p[p.rfind('/') + 1:]\<close>.\<close>

definition basename :: "string \<Rightarrow> string" where
  "basename p = slice_from p (rfind p CHR ''/'' + 1)"

text \<open>\<open>str.strip\<close> removes leading and trailing white space.\<close>

definition isspace :: "char \<Rightarrow> bool" where
  "isspace c = (c \<in> set [CHR '' '', CHR 0x09, CHR 0x0A, CHR 0x0B, CHR 0x0C, CHR 0x0D,
                          CHR 0x1C, CHR 0x1D, CHR 0x1E, CHR 0x1F])"

definition strip :: "string \<Rightarrow> string" where
  "strip s = rev (dropWhile isspace (rev (dropWhile isspace s)))"

section \<open>Listing pages\<close>

text \<open>
  One parsed \<open>ListBucketResult\<close> document. A sub-element looked up with \<open>find\<close> is
  \<open>None\<close> when absent; the \<open>text\<close> of a present element is \<open>None\<close> when the element
  is empty, as in ElementTree.
\<close>

datatype elem = Elem (text_of: "string option")

record owner =
  OwnerID :: "elem option"
  DisplayName :: "elem option"

record content =
  Key :: "elem option"
  LastModified :: "elem option"
  ETag :: "elem option"
  Size :: "elem option"
  StorageClass :: "elem option"
  Owner :: "owner option"
  Type :: "elem option"

record page =
  Contents :: "content list"
  IsTruncated :: "elem option"
  NextMarker :: "elem option"

text \<open>Exceptions that leave \<open>list_s3_bucket_to_csv\<close>.\<close>

datatype py_error = RequestError | ParseError | AttributeError

text \<open>\<open>_safe_find_text\<close>: the text of the sub-element, or the empty string when absent.\<close>

definition safe_find_text :: "elem option \<Rightarrow> string option" where
  "safe_find_text child = (case child of None \<Rightarrow> Some [] | Some c \<Rightarrow> text_of c)"

section \<open>Rows and the filtering rules\<close>

record csv_row =
  bucket_url :: string
  bucket_name :: string
  key :: "string option"
  last_modified :: "string option"
  etag :: "string option"
  size_col :: "string option"
  storage_class :: "string option"
  owner_id :: "string option"
  owner_display_name :: "string option"
  type_col :: "string option"

definition bucket_name_of :: "string \<Rightarrow> string" where
  "bucket_name_of url = split_slash_last (rstrip_slash url)"

datatype filtered = Skipped_envidat1 | Skipped_doi_meta | Written csv_row

text \<open>The dictionary handed to \<open>csv_writer.writerow\<close> for one \<open>Contents\<close> entry.\<close>

definition row_of :: "string \<Rightarrow> content \<Rightarrow> csv_row" where
  "row_of url c =
     \<lparr> bucket_url = url,
       bucket_name = bucket_name_of url,
       key = safe_find_text (Key c),
       last_modified = safe_find_text (LastModified c),
       etag = safe_find_text (ETag c),
       size_col = safe_find_text (Size c),
       storage_class = safe_find_text (StorageClass c),
       owner_id = (case Owner c of None \<Rightarrow> Some [] | Some ow \<Rightarrow> safe_find_text (OwnerID ow)),
       owner_display_name =
         (case Owner c of None \<Rightarrow> Some [] | Some ow \<Rightarrow> safe_find_text (DisplayName ow)),
       type_col = safe_find_text (Type c) \<rparr>"

text \<open>
  \<open>lower_key = key.lower() if isinstance(key, str) else ''\<close> and the argument of
  \<open>os.path.splitext\<close>, \<open>key if key is not None else ''\<close>.
\<close>

definition lower_key :: "content \<Rightarrow> string" where
  "lower_key c = (case safe_find_text (Key c) of Some s \<Rightarrow> lower s | None \<Rightarrow> [])"

definition key_or_empty :: "content \<Rightarrow> string" where
  "key_or_empty c = (case safe_find_text (Key c) of Some s \<Rightarrow> s | None \<Rightarrow> [])"

text \<open>The body of the loop over the \<open>Contents\<close> entries, for one entry.\<close>

definition filter_content :: "string \<Rightarrow> content \<Rightarrow> filtered" where
  "filter_content url c =
     (if py_in ''envidat.1'' (lower_key c) then Skipped_envidat1
      else if bucket_name_of url = ''envidat-doi''
              \<and> lower (snd (splitext (key_or_empty c))) \<in> set [''.html'', ''.json'', ''.xml'']
      then Skipped_doi_meta
      else Written (row_of url c))"

section \<open>The crawl of one bucket\<close>

text \<open>
  The state of \<open>list_s3_bucket_to_csv\<close>: its local variables, the rows handed to the CSV
  writer so far, the \<open>marker\<close> parameter of every GET issued so far (\<open>None\<close> for a
  request without one) and the messages logged at warning level.
\<close>

record crawl_state =
  marker :: "string option"
  page_count :: nat
  skipped_envidat1 :: nat
  skipped_doi_meta :: nat
  rows :: "csv_row list"
  requests :: "string option list"
  warnings :: "string list"

text \<open>The \<open>for content in contents\<close> loop.\<close>

fun write_contents :: "string \<Rightarrow> content list \<Rightarrow> crawl_state \<Rightarrow> crawl_state" where
  "write_contents url [] s = s"
| "write_contents url (c # cs) s =
     write_contents url cs
       (case filter_content url c of
          Skipped_envidat1 \<Rightarrow> s\<lparr>skipped_envidat1 := skipped_envidat1 s + 1\<rparr>
        | Skipped_doi_meta \<Rightarrow> s\<lparr>skipped_doi_meta := skipped_doi_meta s + 1\<rparr>
        | Written r \<Rightarrow> s\<lparr>rows := rows s @ [r]\<rparr>)"

text \<open>Python's truth value of a string or \<open>None\<close>.\<close>

definition truthy :: "string option \<Rightarrow> bool" where
  "truthy v = (case v of None \<Rightarrow> False | Some s \<Rightarrow> s \<noteq> [])"

text \<open>\<open>params\<close> carries a marker only \<open>if marker\<close>.\<close>

definition marker_param :: "string option \<Rightarrow> string option" where
  "marker_param m = (if truthy m then m else None)"

text \<open>
  \<open>is_truncated_tag is not None and is_truncated_tag.text.lower() == 'true'\<close>; the
  method call on the \<open>None\<close> text of an empty element raises.
\<close>

definition is_truncated :: "page \<Rightarrow> py_error + bool" where
  "is_truncated pg =
     (case IsTruncated pg of
        None \<Rightarrow> Inr False
      | Some tag \<Rightarrow>
          (case text_of tag of
             None \<Rightarrow> Inl AttributeError
           | Some t \<Rightarrow> Inr (lower t = ''true'')))"

text \<open>
  The next marker of a truncated page: \<open>None\<close> is the \<open>break\<close> of the branch that logs
  the warning, \<open>Some m\<close> the new value of \<open>marker\<close>.
\<close>

definition last_key :: "page \<Rightarrow> string option option" where
  "last_key pg =
     (if Contents pg \<noteq> []
      then Some (case Key (last (Contents pg)) of None \<Rightarrow> None | Some lk \<Rightarrow> text_of lk)
      else None)"

definition next_marker :: "page \<Rightarrow> string option option" where
  "next_marker pg =
     (case NextMarker pg of
        None \<Rightarrow> last_key pg
      | Some tag \<Rightarrow> if truthy (text_of tag) then Some (text_of tag) else last_key pg)"

definition no_contents_warning :: string where
  "no_contents_warning =
     ''IsTruncated true but no Contents entries found; stopping to avoid infinite loop''"

text \<open>How the \<open>while True\<close> loop was left: by one of its three \<open>break\<close>s.\<close>

datatype stop = Not_truncated | No_contents | Max_pages

text \<open>
  The fetcher stands for \<open>session.get\<close>, \<open>raise_for_status\<close> and the XML parser: given
  the number of pages already fetched from the bucket and the marker parameter, it
  answers a page or raises. A loop that never leaves is the value \<open>None\<close>.
\<close>

type_synonym fetcher = "nat \<Rightarrow> string option \<Rightarrow> py_error + page"

type_synonym crawl_result = "(py_error + stop) \<times> crawl_state"

text \<open>
  One pass through the body of \<open>while True\<close>: \<open>Inl\<close> when the pass leaves the loop
  (by an exception or a \<open>break\<close>), \<open>Inr\<close> with the state at the end of the pass when
  the loop goes round again.
\<close>

definition crawl_iteration ::
  "fetcher \<Rightarrow> string \<Rightarrow> int option \<Rightarrow> crawl_state \<Rightarrow> crawl_result + crawl_state"
where
  "crawl_iteration fetch url max_pages s =
     (let s1 = s\<lparr>requests := requests s @ [marker_param (marker s)]\<rparr> in
      case fetch (page_count s) (marker_param (marker s)) of
        Inl e \<Rightarrow> Inl (Inl e, s1)
      | Inr pg \<Rightarrow>
          (let s2 = write_contents url (Contents pg) s1;
               s3 = s2\<lparr>page_count := page_count s2 + 1\<rparr>
           in case is_truncated pg of
                Inl e \<Rightarrow> Inl (Inl e, s3)
              | Inr trunc \<Rightarrow>
                  if \<not> trunc then Inl (Inr Not_truncated, s3)
                  else
                    (case next_marker pg of
                       None \<Rightarrow>
                         Inl (Inr No_contents,
                              s3\<lparr>warnings := warnings s3 @ [no_contents_warning]\<rparr>)
                     | Some m \<Rightarrow>
                         (let s4 = s3\<lparr>marker := m\<rparr>
                          in if (case max_pages of None \<Rightarrow> False
                                   | Some n \<Rightarrow> int (page_count s4) \<ge> n)
                             then Inl (Inr Max_pages, s4)
                             else Inr s4))))"

partial_function (option) crawl_loop ::
  "fetcher \<Rightarrow> string \<Rightarrow> int option \<Rightarrow> crawl_state \<Rightarrow> crawl_result option"
where
  "crawl_loop fetch url max_pages s =
     (case crawl_iteration fetch url max_pages s of
        Inl r \<Rightarrow> Some r
      | Inr s' \<Rightarrow> crawl_loop fetch url max_pages s')"

text \<open>The local variables before the loop; \<open>out\<close> is what the writer already holds.\<close>

definition init_state :: "csv_row list \<Rightarrow> crawl_state" where
  "init_state out =
     \<lparr>marker = None, page_count = 0, skipped_envidat1 = 0, skipped_doi_meta = 0,
      rows = out, requests = [], warnings = []\<rparr>"

definition list_s3_bucket_to_csv ::
  "fetcher \<Rightarrow> string \<Rightarrow> int option \<Rightarrow> csv_row list \<Rightarrow> crawl_result option"
where
  "list_s3_bucket_to_csv fetch url max_pages out =
     crawl_loop fetch url max_pages (init_state out)"

text \<open>
  \<open>cmd_fetch\<close>: the buckets in order, all writing to one CSV writer; an exception in a
  bucket ends the run with the rows written so far.
\<close>

fun cmd_fetch ::
  "(string \<Rightarrow> fetcher) \<Rightarrow> string list \<Rightarrow> int option \<Rightarrow> csv_row list
     \<Rightarrow> ((py_error + unit) \<times> csv_row list) option"
where
  "cmd_fetch fetch [] max_pages out = Some (Inr (), out)"
| "cmd_fetch fetch (bucket # buckets) max_pages out =
     (case list_s3_bucket_to_csv (fetch bucket) bucket max_pages out of
        None \<Rightarrow> None
      | Some (Inl e, s) \<Rightarrow> Some (Inl e, rows s)
      | Some (Inr st, s) \<Rightarrow> cmd_fetch fetch buckets max_pages (rows s))"

text \<open>Whether the entry passes both rules, that is, reaches \<open>csv_writer.writerow\<close>.\<close>

definition emitted :: "string \<Rightarrow> content \<Rightarrow> bool" where
  "emitted url c = (case filter_content url c of Written r \<Rightarrow> True | _ \<Rightarrow> False)"

text \<open>
  What the data model asks of the \<open>size\<close> column: the text of a non-negative integer,
  a non-empty run of decimal digits.
\<close>

definition is_digit :: "char \<Rightarrow> bool" where
  "is_digit c = (c \<in> set ''0123456789'')"

definition nonneg_int_text :: "string option \<Rightarrow> bool" where
  "nonneg_int_text v =
     (case v of None \<Rightarrow> False | Some s \<Rightarrow> s \<noteq> [] \<and> list_all is_digit s)"

text \<open>The state a pass ends in, whether it leaves the loop or not.\<close>

definition state_of :: "crawl_result + crawl_state \<Rightarrow> crawl_state" where
  "state_of x = (case x of Inl r \<Rightarrow> snd r | Inr s \<Rightarrow> s)"

text \<open>
  The state in which pass number \<open>k\<close> of the loop starts, the first pass being number
  0; \<open>None\<close> when the loop is left before.
\<close>

fun state_at ::
  "nat \<Rightarrow> fetcher \<Rightarrow> string \<Rightarrow> int option \<Rightarrow> crawl_state \<Rightarrow> crawl_state option"
where
  "state_at 0 fetch url max_pages s = Some s"
| "state_at (Suc k) fetch url max_pages s =
     (case crawl_iteration fetch url max_pages s of
        Inl r \<Rightarrow> None
      | Inr s' \<Rightarrow> state_at k fetch url max_pages s')"

text \<open>
  The stop conditions of the pass that starts in state \<open>s\<close>, read off the answer to its
  request: an exception of the fetch or of the reading of the flag; a truncation flag
  that is false; a truncated page from which no next marker is derived; a truncated
  page with a next marker when the number of pages fetched, this one included, has
  reached the maximum. \<open>None\<close> when none of them holds.
\<close>

definition pass_stop :: "fetcher \<Rightarrow> int option \<Rightarrow> crawl_state \<Rightarrow> (py_error + stop) option" where
  "pass_stop fetch max_pages s =
     (case fetch (page_count s) (marker_param (marker s)) of
        Inl e \<Rightarrow> Some (Inl e)
      | Inr pg \<Rightarrow>
          (case is_truncated pg of
             Inl e \<Rightarrow> Some (Inl e)
           | Inr trunc \<Rightarrow>
               if \<not> trunc then Some (Inr Not_truncated)
               else if next_marker pg = None then Some (Inr No_contents)
               else if (case max_pages of None \<Rightarrow> False
                        | Some n \<Rightarrow> int (page_count s) + 1 \<ge> n)
               then Some (Inr Max_pages)
               else None))"

subsection \<open>Example fetchers\<close>

definition entry :: "string \<Rightarrow> content" where
  "entry k = \<lparr>Key = Some (Elem (Some k)), LastModified = None, ETag = None, Size = None,
              StorageClass = None, Owner = None, Type = None\<rparr>"

text \<open>A server that answers every request with the same truncated page of one entry.\<close>

definition endless_fetcher :: fetcher where
  "endless_fetcher n m =
     Inr \<lparr>Contents = [entry ''a''], IsTruncated = Some (Elem (Some ''true'')),
          NextMarker = None\<rparr>"

text \<open>
  A server with the keys \<open>a\<close>, \<open>b\<close>, \<open>c\<close> and pages of two entries, which sends no
  \<open>NextMarker\<close>; a request with any marker but \<open>b\<close> after the first page fails.
\<close>

definition two_page_fetcher :: fetcher where
  "two_page_fetcher n m =
     (if m = None
      then Inr \<lparr>Contents = [entry ''a'', entry ''b''],
                IsTruncated = Some (Elem (Some ''true'')), NextMarker = None\<rparr>
      else if m = Some ''b''
      then Inr \<lparr>Contents = [entry ''c''],
                IsTruncated = Some (Elem (Some ''false'')), NextMarker = None\<rparr>
      else Inl RequestError)"

text \<open>A server whose only answer is a truncated page without entries or next marker.\<close>

definition empty_truncated_fetcher :: fetcher where
  "empty_truncated_fetcher n m =
     Inr \<lparr>Contents = [], IsTruncated = Some (Elem (Some ''true'')), NextMarker = None\<rparr>"

text \<open>
  A server whose only answer is an empty page with the flag \<open>False\<close> and a next marker.
\<close>

definition last_page_fetcher :: fetcher where
  "last_page_fetcher n m =
     Inr \<lparr>Contents = [], IsTruncated = Some (Elem (Some ''False'')),
          NextMarker = Some (Elem (Some ''k''))\<rparr>"

section \<open>The aggregation\<close>

text \<open>
  A row of the data frame of \<open>cmd_visualize\<close>, with the columns the charts are computed
  from. \<open>None\<close> is pandas' missing value, which \<open>read_csv\<close> gives for an empty field.
  \<open>df_size_bytes\<close> is the column \<open>size_bytes\<close>, a signed 64-bit integer: the result of
  \<open>pd.to_numeric(..., errors='coerce').fillna(0).astype('int64')\<close>, a conversion done by
  pandas that is taken as given here.
\<close>

record df_row =
  df_bucket_name :: "string option"
  df_key :: "string option"
  df_size_bytes :: "64 word"

text \<open>
  \<open>get_ext\<close>, the function local to \<open>cmd_visualize\<close>. Its first argument is Python's
  \<open>str.lower\<close>, of which the properties below use at most that it maps the empty string,
  and no other, to the empty string.
\<close>

definition get_ext :: "(string \<Rightarrow> string) \<Rightarrow> string option \<Rightarrow> string" where
  "get_ext str_lower k =
     (case k of
        None \<Rightarrow> ''<no_ext>''
      | Some s \<Rightarrow>
          if strip s = [] then ''<no_ext>''
          else (let base = basename s
                in if \<not> py_in ''.'' base then ''<no_ext>''
                   else (let e = str_lower (snd (splitext base))
                         in if e = [] then ''<no_ext>'' else e)))"

text \<open>
  \<open>df['extension'] = df['key'].apply(get_ext)\<close>: the data frame gets one more column,
  computed once for every row.
\<close>

record ext_row = df_row +
  extension :: string

definition with_extension :: "(string \<Rightarrow> string) \<Rightarrow> df_row \<Rightarrow> ext_row" where
  "with_extension str_lower r =
     \<lparr>df_bucket_name = df_bucket_name r, df_key = df_key r,
      df_size_bytes = df_size_bytes r, extension = get_ext str_lower (df_key r)\<rparr>"

text \<open>
  \<open>df.groupby(keys)[col].sum()\<close>: the rows with a missing key are dropped, the groups
  come in the order of their keys, and each carries the sum of the column over its rows
  (\<open>.size()\<close> is the sum of the constant one).
\<close>

definition groupby_sum ::
  "('r \<Rightarrow> 'k::linorder option) \<Rightarrow> ('r \<Rightarrow> 'v::comm_monoid_add) \<Rightarrow> 'r list \<Rightarrow> ('k \<times> 'v) list"
where
  "groupby_sum keyf valf df =
     map (\<lambda>k. (k, sum_list (map valf (filter (\<lambda>r. keyf r = Some k) df))))
       (sort (remdups (List.map_filter keyf df)))"

text \<open>
  \<open>sort_values(col, ascending=False)\<close>: pandas reverses the rows, sorts them in
  ascending order and reverses the outcome; the ascending sort is taken to be stable,
  so that rows with equal values keep their order.
\<close>

definition sort_values_desc :: "('v \<Rightarrow> int) \<Rightarrow> ('k \<times> 'v) list \<Rightarrow> ('k \<times> 'v) list" where
  "sort_values_desc to_int xs = rev (sort_key (\<lambda>x. to_int (snd x)) (rev xs))"

text \<open>\<open>xs.iloc[:n]\<close>, where a negative \<open>n\<close> counts from the end.\<close>

definition iloc_to :: "int \<Rightarrow> 'a list \<Rightarrow> 'a list" where
  "iloc_to n xs = (if n \<ge> 0 then take (nat n) xs else take (length xs - nat (- n)) xs)"

text \<open>The key \<open>['bucket_name', 'extension']\<close> of a row of the data frame.\<close>

definition bucket_extension :: "ext_row \<Rightarrow> (string \<times> string) option" where
  "bucket_extension r =
     (case df_bucket_name r of None \<Rightarrow> None | Some b \<Rightarrow> Some (b, extension r))"

text \<open>\<open>top_exts\<close>: the first \<open>top_n_extensions\<close> extensions by their number of rows.\<close>

definition top_exts :: "int \<Rightarrow> ext_row list \<Rightarrow> string set" where
  "top_exts n df =
     set (map fst (iloc_to n
       (sort_values_desc int (groupby_sum (\<lambda>r. Some (extension r)) (\<lambda>r. 1::nat) df))))"

text \<open>
  \<open>df_counts\<close>, a list of \<open>((bucket_name, extension), count)\<close>, after the optional
  reduction to the top extensions.
\<close>

definition df_counts :: "int option \<Rightarrow> ext_row list \<Rightarrow> ((string \<times> string) \<times> nat) list" where
  "df_counts top_n_extensions df =
     (let counts = groupby_sum bucket_extension (\<lambda>r. 1::nat) df
      in case top_n_extensions of
           None \<Rightarrow> counts
         | Some n \<Rightarrow>
             groupby_sum (\<lambda>x. Some (fst x)) snd
               (map (\<lambda>((b, e), c). ((b, if e \<in> top_exts n df then e else ''<other>''), c))
                  counts))"

definition df_counts_bytes :: "ext_row list \<Rightarrow> ((string \<times> string) \<times> 64 word) list" where
  "df_counts_bytes df = groupby_sum bucket_extension df_size_bytes df"

text \<open>
  One entry of the parallel lists \<open>ids\<close>, \<open>labels\<close>, \<open>parents\<close>, \<open>values\<close> of a
  sunburst chart; the values are Python integers.
\<close>

record node =
  node_id :: string
  node_label :: string
  node_parent :: string
  node_value :: int

text \<open>
  The three loops that fill the lists: the root, one node for each bucket, one node for
  each row of the grouped table. \<open>to_int\<close> is \<open>int(...)\<close> at the column's type.
\<close>

definition sunburst ::
  "string \<Rightarrow> ('v::comm_monoid_add \<Rightarrow> int) \<Rightarrow> ((string \<times> string) \<times> 'v) list \<Rightarrow> node list"
where
  "sunburst root_label to_int counts =
     \<lparr>node_id = ''root'', node_label = root_label, node_parent = [],
      node_value = to_int (sum_list (map snd counts))\<rparr>
     # map (\<lambda>(b, c). \<lparr>node_id = ''bucket:'' @ b, node_label = b, node_parent = ''root'',
                         node_value = to_int c\<rparr>)
         (groupby_sum (\<lambda>x. Some (fst (fst x))) snd counts)
     @ map (\<lambda>((b, e), c). \<lparr>node_id = b @ ''|'' @ e, node_label = e,
                              node_parent = ''bucket:'' @ b, node_value = to_int c\<rparr>)
         counts"

text \<open>The label list and the links of a sankey chart.\<close>

record flow =
  flow_labels :: "string list"
  flow_source :: "nat list"
  flow_target :: "nat list"
  flow_value :: "int list"

definition sankey :: "string \<Rightarrow> ('v \<Rightarrow> int) \<Rightarrow> (string \<times> 'v) list \<Rightarrow> flow" where
  "sankey total_label to_int total_by_extension =
     \<lparr>flow_labels = total_label # map fst total_by_extension,
      flow_source = map (\<lambda>i. 0) [0..<length total_by_extension],
      flow_target = map (\<lambda>i. 1 + i) [0..<length total_by_extension],
      flow_value = map (\<lambda>x. to_int (snd x)) total_by_extension\<rparr>"

text \<open>The four charts of \<open>cmd_visualize\<close>, in the order in which it builds them.\<close>

record charts =
  sunburst_counts :: "node list"
  sankey_counts :: flow
  sankey_bytes :: flow
  sunburst_bytes :: "node list"

definition build_charts :: "int option \<Rightarrow> ext_row list \<Rightarrow> charts" where
  "build_charts top_n_extensions df =
     \<lparr>sunburst_counts = sunburst ''All files'' int (df_counts top_n_extensions df),
      sankey_counts =
        sankey ''Total files'' int
          (sort_values_desc int (groupby_sum (\<lambda>r. Some (extension r)) (\<lambda>r. 1::nat) df)),
      sankey_bytes =
        sankey ''Total bytes'' sint
          (sort_values_desc sint (groupby_sum (\<lambda>r. Some (extension r)) df_size_bytes df)),
      sunburst_bytes = sunburst ''All bytes'' sint (df_counts_bytes df)\<rparr>"

text \<open>\<open>cmd_visualize\<close>: the extension column is added, then the charts are built.\<close>

definition cmd_visualize :: "(string \<Rightarrow> string) \<Rightarrow> int option \<Rightarrow> df_row list \<Rightarrow> charts" where
  "cmd_visualize str_lower top_n_extensions df =
     build_charts top_n_extensions (map (with_extension str_lower) df)"

text \<open>The sum of the values of the nodes whose parent is \<open>p\<close>.\<close>

definition children_sum :: "string \<Rightarrow> node list \<Rightarrow> int" where
  "children_sum p t = sum_list (map node_value (filter (\<lambda>n. node_parent n = p) t))"

text \<open>
  The invariant of a sunburst chart: the first node is the root and carries the sum of
  the nodes below it, and every node below the root carries the sum of the nodes below
  itself.
\<close>

definition tree_sums :: "node list \<Rightarrow> bool" where
  "tree_sums t =
     (t \<noteq> [] \<and> node_id (hd t) = ''root''
      \<and> node_value (hd t) = children_sum ''root'' t
      \<and> list_all (\<lambda>n. node_value n = children_sum (node_id n) t)
           (filter (\<lambda>n. node_parent n = ''root'') t))"

text \<open>
  The sizes for which no 64-bit sum overflows: none is negative and their exact total
  is below \<open>2 ^ 63\<close>.
\<close>

definition no_overflow :: "'a df_row_scheme list \<Rightarrow> bool" where
  "no_overflow df =
     (list_all (\<lambda>r. 0 \<le> sint (df_size_bytes r)) df
      \<and> sum_list (map (\<lambda>r. sint (df_size_bytes r)) df) < 2 ^ 63)"

subsection \<open>Example tables\<close>

definition df_of :: "string \<Rightarrow> string \<Rightarrow> int \<Rightarrow> df_row" where
  "df_of b k n = \<lparr>df_bucket_name = Some b, df_key = Some k, df_size_bytes = word_of_int n\<rparr>"

text \<open>Two objects of \<open>2 ^ 62\<close> bytes each.\<close>

definition df_huge :: "df_row list" where
  "df_huge = [df_of ''edna'' ''a.csv'' 4611686018427387904,
              df_of ''edna'' ''b.txt'' 4611686018427387904]"

definition df_small :: "df_row list" where
  "df_small = [df_of ''edna'' ''a.csv'' 10, df_of ''edna'' ''b.csv'' 20,
               df_of ''edna'' ''c.txt'' 5, df_of ''envicloud'' ''d/e.CSV'' 7]"


subsection \<open>The extension label as the specification words it\<close>

text \<open>The suffix of a name that starts at its last dot.\<close>

definition last_dot_suffix :: "string \<Rightarrow> string" where
  "last_dot_suffix base = slice_from base (rfind base CHR ''.'')"

text \<open>Whether every character before the last dot of a name is a dot, as in \<open>.bashrc\<close>.\<close>

definition only_leading_dots :: "string \<Rightarrow> bool" where
  "only_leading_dots base = list_all (\<lambda>c. c = CHR ''.'') (slice_to base (rfind base CHR ''.''))"

text \<open>
  The label in the words of the specification: \<open><no_ext>\<close> for a missing or empty key
  and for a basename without a dot, otherwise the lower-cased suffix that starts at the
  last dot of the basename.
\<close>

definition get_ext_spec :: "(string \<Rightarrow> string) \<Rightarrow> string option \<Rightarrow> string" where
  "get_ext_spec str_lower k =
     (case k of
        None \<Rightarrow> ''<no_ext>''
      | Some s \<Rightarrow>
          if s = [] \<or> CHR ''.'' \<notin> set (basename s) then ''<no_ext>''
          else str_lower (last_dot_suffix (basename s)))"


section \<open>Properties of the filtering rules\<close>

lemma startswith_iff: "startswith p s \<longleftrightarrow> (\<exists>b. s = p @ b)"
  by (induction p s rule: startswith.induct) auto

text \<open>\<open>py_in\<close> is the substring test.\<close>

lemma py_in_iff: "py_in p s \<longleftrightarrow> (\<exists>a b. s = a @ p @ b)"
proof (induction s)
  case Nil
  then show ?case by auto
next
  case (Cons c cs)
  show ?case
  proof
    assume "py_in p (c # cs)"
    then consider "startswith p (c # cs)" | "py_in p cs" by auto
    then show "\<exists>a b. c # cs = a @ p @ b"
    proof cases
      case 1
      then obtain b where "c # cs = p @ b" by (auto simp: startswith_iff)
      then have "c # cs = [] @ p @ b" by simp
      then show ?thesis by blast
    next
      case 2
      then obtain a b where "cs = a @ p @ b" using Cons.IH by auto
      then have "c # cs = (c # a) @ p @ b" by simp
      then show ?thesis by blast
    qed
  next
    assume "\<exists>a b. c # cs = a @ p @ b"
    then obtain a b where ab: "c # cs = a @ p @ b" by blast
    show "py_in p (c # cs)"
    proof (cases a)
      case Nil
      then have "startswith p (c # cs)" using ab by (auto simp: startswith_iff)
      then show ?thesis by simp
    next
      case (Cons x a')
      then have "cs = a' @ p @ b" using ab by simp
      then have "py_in p cs" using Cons.IH by blast
      then show ?thesis by simp
    qed
  qed
qed

text \<open>
  Claim C3. Whatever the bucket, an entry whose lower-cased key contains \<open>envidat.1\<close> is
  discarded: the filter answers the first skip, no row reaches the CSV writer, and the
  first skip counter goes up by one.
\<close>

theorem rule_a_discards_in_every_bucket:
  assumes "py_in ''envidat.1'' (lower_key c)"
  shows "filter_content url c = Skipped_envidat1
     \<and> rows (write_contents url [c] s) = rows s
     \<and> skipped_envidat1 (write_contents url [c] s) = skipped_envidat1 s + 1"
  using assms by (simp add: filter_content_def)

theorem rule_a_discards_in_every_bucket_witness:
  "py_in ''envidat.1''
     (lower_key \<lparr>Key = Some (Elem (Some ''x/envidat.1.2.3/data.csv'')), LastModified = None,
        ETag = None, Size = None, StorageClass = None, Owner = None, Type = None\<rparr>)
   \<and> filter_content ''https://os.zhdk.cloud.switch.ch/envicloud/''
       \<lparr>Key = Some (Elem (Some ''x/envidat.1.2.3/data.csv'')), LastModified = None,
        ETag = None, Size = None, StorageClass = None, Owner = None, Type = None\<rparr>
     = Skipped_envidat1"
proof -
  have h: "py_in ''envidat.1''
     (lower_key \<lparr>Key = Some (Elem (Some ''x/envidat.1.2.3/data.csv'')), LastModified = None,
        ETag = None, Size = None, StorageClass = None, Owner = None, Type = None\<rparr>)"
    by (simp add: lower_key_def safe_find_text_def lower_def lower_char_def)
  from rule_a_discards_in_every_bucket [OF h, of "''https://os.zhdk.cloud.switch.ch/envicloud/''"]
  show ?thesis using h by blast
qed

section \<open>The size column\<close>

lemma filter_content_cases:
  "filter_content url c = Skipped_envidat1 \<or> filter_content url c = Skipped_doi_meta
   \<or> filter_content url c = Written (row_of url c)"
  by (simp add: filter_content_def)

text \<open>The rows handed to the writer by one page: the rows of the entries that pass.\<close>

lemma rows_write_contents:
  "rows (write_contents url cs s) = rows s @ map (row_of url) (filter (emitted url) cs)"
proof (induction cs arbitrary: s)
  case Nil
  show ?case by simp
next
  case (Cons c cs)
  from filter_content_cases [of url c] show ?case
    by (auto simp: Cons.IH emitted_def)
qed

text \<open>
  Claim C9, as amended. The crawler does not normalise the size: every row it writes
  carries the text of the \<open>Size\<close> element unchanged, which is the empty string when the
  element is absent.
\<close>

theorem size_written_verbatim:
  "map size_col (rows (write_contents url cs s))
     = map size_col (rows s) @ map (\<lambda>c. safe_find_text (Size c)) (filter (emitted url) cs)"
  by (simp add: rows_write_contents row_of_def comp_def)

text \<open>
  Claim C9 as stated fails: an entry with the size text \<open>abc\<close> and an entry without a
  \<open>Size\<close> element are written with the sizes \<open>abc\<close> and the empty string, neither of
  them the text of a non-negative integer.
\<close>

theorem size_not_normalised_counterexample:
  "map size_col (rows (write_contents ''https://os.zhdk.cloud.switch.ch/envicloud/''
      [\<lparr>Key = Some (Elem (Some ''a.txt'')), LastModified = None, ETag = None,
        Size = Some (Elem (Some ''abc'')), StorageClass = None, Owner = None, Type = None\<rparr>,
       \<lparr>Key = Some (Elem (Some ''b.txt'')), LastModified = None, ETag = None,
        Size = None, StorageClass = None, Owner = None, Type = None\<rparr>]
      \<lparr>marker = None, page_count = 0, skipped_envidat1 = 0, skipped_doi_meta = 0,
        rows = [], requests = [], warnings = []\<rparr>))
    = [Some ''abc'', Some '''']
  \<and> \<not> nonneg_int_text (Some ''abc'') \<and> \<not> nonneg_int_text (Some '''')"
  by (simp add: filter_content_def row_of_def lower_key_def key_or_empty_def safe_find_text_def
      lower_def lower_char_def bucket_name_of_def rstrip_slash_def split_slash_last_def
      nonneg_int_text_def is_digit_def)

section \<open>Properties of the crawl loop\<close>

lemma write_contents_fields [simp]:
  "requests (write_contents url cs s) = requests s"
  "page_count (write_contents url cs s) = page_count s"
  "marker (write_contents url cs s) = marker s"
  "warnings (write_contents url cs s) = warnings s"
  by (induction cs arbitrary: s; simp split: filtered.splits)+

lemma is_truncated_True_iff:
  "is_truncated pg = Inr True
     \<longleftrightarrow> (\<exists>t. IsTruncated pg = Some (Elem (Some t)) \<and> lower t = ''true'')"
proof (cases "IsTruncated pg")
  case None
  then show ?thesis by (simp add: is_truncated_def)
next
  case (Some e)
  then show ?thesis by (cases e) (auto simp: is_truncated_def split: option.splits)
qed

text \<open>A pass that leaves ends the loop; a pass that does not hands its state on.\<close>

lemma crawl_loop_Inl:
  "crawl_iteration fetch url max_pages s = Inl r \<Longrightarrow> crawl_loop fetch url max_pages s = Some r"
  by (subst crawl_loop.simps) simp

lemma crawl_loop_Inr:
  "crawl_iteration fetch url max_pages s = Inr s'
     \<Longrightarrow> crawl_loop fetch url max_pages s = crawl_loop fetch url max_pages s'"
  by (subst crawl_loop.simps) simp

text \<open>When a pass goes round again.\<close>

lemma crawl_iteration_Inr:
  assumes "crawl_iteration fetch url max_pages s = Inr s'"
  shows "\<exists>pg m. fetch (page_count s) (marker_param (marker s)) = Inr pg
           \<and> is_truncated pg = Inr True \<and> next_marker pg = Some m
           \<and> s' = (write_contents url (Contents pg)
                     (s\<lparr>requests := requests s @ [marker_param (marker s)]\<rparr>))
                  \<lparr>page_count := page_count s + 1, marker := m\<rparr>
           \<and> (case max_pages of None \<Rightarrow> True | Some n \<Rightarrow> int (page_count s) + 1 < n)"
  using assms
  by (cases "fetch (page_count s) (marker_param (marker s))")
     (auto simp: crawl_iteration_def Let_def split: sum.splits if_splits option.splits)

text \<open>Every pass issues exactly one request, with the marker the state holds.\<close>

lemma crawl_iteration_requests:
  "requests (state_of (crawl_iteration fetch url max_pages s))
     = requests s @ [marker_param (marker s)]"
  by (cases "fetch (page_count s) (marker_param (marker s))")
     (auto simp: crawl_iteration_def state_of_def Let_def split: sum.splits option.splits)

subsection \<open>Termination\<close>

lemma pass_stop_Inl:
  "crawl_iteration fetch url max_pages s = Inl r \<Longrightarrow> pass_stop fetch max_pages s = Some (fst r)"
  by (cases "fetch (page_count s) (marker_param (marker s))")
     (auto simp: crawl_iteration_def pass_stop_def Let_def
           split: sum.splits if_splits option.splits)

lemma pass_stop_Inr:
  "crawl_iteration fetch url max_pages s = Inr s' \<Longrightarrow> pass_stop fetch max_pages s = None"
  by (cases "fetch (page_count s) (marker_param (marker s))")
     (auto simp: crawl_iteration_def pass_stop_def Let_def
           split: sum.splits if_splits option.splits)

lemma pass_stop_Some:
  assumes "pass_stop fetch max_pages s = Some x"
  shows "\<exists>t. crawl_iteration fetch url max_pages s = Inl (x, t)"
proof (cases "crawl_iteration fetch url max_pages s")
  case (Inl r)
  from pass_stop_Inl [OF Inl] assms have "fst r = x" by simp
  with Inl show ?thesis by (cases r) auto
next
  case (Inr s')
  from pass_stop_Inr [OF Inr] assms show ?thesis by simp
qed

lemma state_at_crawl_loop:
  "state_at k fetch url max_pages s = Some t
     \<Longrightarrow> crawl_loop fetch url max_pages s = crawl_loop fetch url max_pages t"
proof (induction k arbitrary: s)
  case 0
  then show ?case by simp
next
  case (Suc k)
  then obtain s' where s': "crawl_iteration fetch url max_pages s = Inr s'"
      "state_at k fetch url max_pages s' = Some t"
    by (auto split: sum.splits)
  from Suc.IH [OF s'(2)] crawl_loop_Inr [OF s'(1)] show ?case by simp
qed

lemma state_at_earlier:
  "state_at k fetch url max_pages s = Some t \<Longrightarrow> j < k
     \<Longrightarrow> \<exists>u. state_at j fetch url max_pages s = Some u \<and> pass_stop fetch max_pages u = None"
proof (induction k arbitrary: s j)
  case 0
  then show ?case by simp
next
  case (Suc k)
  then obtain s' where s': "crawl_iteration fetch url max_pages s = Inr s'"
      "state_at k fetch url max_pages s' = Some t"
    by (auto split: sum.splits)
  show ?case
  proof (cases j)
    case 0
    with pass_stop_Inr [OF s'(1)] show ?thesis by simp
  next
    case (Suc j')
    with Suc.prems have "j' < k" by simp
    from Suc.IH [OF s'(2) this] s'(1) Suc show ?thesis by simp
  qed
qed

lemma state_at_page_count:
  "state_at k fetch url max_pages s = Some t \<Longrightarrow> page_count t = page_count s + k"
proof (induction k arbitrary: s)
  case 0
  then show ?case by simp
next
  case (Suc k)
  then obtain s' where s': "crawl_iteration fetch url max_pages s = Inr s'"
      "state_at k fetch url max_pages s' = Some t"
    by (auto split: sum.splits)
  from crawl_iteration_Inr [OF s'(1)] have "page_count s' = page_count s + 1" by auto
  with Suc.IH [OF s'(2)] show ?case by simp
qed

lemma ceiling_reached:
  "\<exists>k t x. state_at k fetch url (Some n) s = Some t \<and> pass_stop fetch (Some n) t = Some x
      \<and> int (page_count t) < max (int (page_count s) + 1) n"
proof (induction "nat (n - int (page_count s))" arbitrary: s rule: less_induct)
  case less
  show ?case
  proof (cases "crawl_iteration fetch url (Some n) s")
    case (Inl r)
    from pass_stop_Inl [OF Inl]
    have "state_at 0 fetch url (Some n) s = Some s \<and> pass_stop fetch (Some n) s = Some (fst r)
      \<and> int (page_count s) < max (int (page_count s) + 1) n"
      by simp
    then show ?thesis by blast
  next
    case (Inr s')
    from crawl_iteration_Inr [OF Inr]
    have pc: "page_count s' = page_count s + 1" and lt: "int (page_count s) + 1 < n"
      by auto
    then have "nat (n - int (page_count s')) < nat (n - int (page_count s))"
      by simp
    from less [OF this] obtain k t x where
      k: "state_at k fetch url (Some n) s' = Some t" "pass_stop fetch (Some n) t = Some x"
        "int (page_count t) < max (int (page_count s') + 1) n"
      by blast
    from k(1) Inr have "state_at (Suc k) fetch url (Some n) s = Some t" by simp
    moreover from k(3) pc lt have "int (page_count t) < max (int (page_count s) + 1) n"
      by simp
    ultimately show ?thesis using k(2) by blast
  qed
qed

text \<open>
  Claim C2, as amended. The loop of one bucket stops in the first pass that meets a
  stop condition: the fetch or the reading of the flag raises, the truncation flag of
  the page is false, the page is truncated and no next marker can be derived from it,
  or the page is truncated, a marker is derived and the page count has reached the
  configured maximum. It returns the outcome of that pass, so it terminates whenever
  its run reaches such a pass. With a maximum \<open>n\<close> configured such a pass always comes,
  after at most \<open>max 1 n\<close> pages of the bucket.
\<close>

theorem crawl_terminates:
  "(state_at k fetch url max_pages s = Some t \<and> pass_stop fetch max_pages t = Some x
      \<longrightarrow> (\<exists>t'. crawl_iteration fetch url max_pages t = Inl (x, t')
                \<and> crawl_loop fetch url max_pages s = Some (x, t'))
          \<and> (\<forall>j<k. \<exists>u. state_at j fetch url max_pages s = Some u
                         \<and> pass_stop fetch max_pages u = None))
   \<and> (\<exists>k t x. state_at k fetch url (Some n) s = Some t
          \<and> pass_stop fetch (Some n) t = Some x
          \<and> int (page_count t) < max (int (page_count s) + 1) n)"
proof (intro conjI impI)
  assume a: "state_at k fetch url max_pages s = Some t \<and> pass_stop fetch max_pages t = Some x"
  then obtain t' where t': "crawl_iteration fetch url max_pages t = Inl (x, t')"
    using pass_stop_Some by blast
  from a have "crawl_loop fetch url max_pages s = crawl_loop fetch url max_pages t"
    by (auto dest: state_at_crawl_loop)
  with crawl_loop_Inl [OF t'] t'
  show "\<exists>t'. crawl_iteration fetch url max_pages t = Inl (x, t')
                \<and> crawl_loop fetch url max_pages s = Some (x, t')"
    by simp
  from a show "\<forall>j<k. \<exists>u. state_at j fetch url max_pages s = Some u
                         \<and> pass_stop fetch max_pages u = None"
    by (auto dest: state_at_earlier)
next
  show "\<exists>k t x. state_at k fetch url (Some n) s = Some t
          \<and> pass_stop fetch (Some n) t = Some x
          \<and> int (page_count t) < max (int (page_count s) + 1) n"
    by (rule ceiling_reached)
qed

text \<open>
  Two crawls of two passes. Against the two-page server, with no maximum, the second
  pass fetches a page that is not truncated and the loop returns with the three rows;
  against the server of endless truncated pages, with the maximum 2, the second pass
  reaches the maximum.
\<close>

theorem crawl_terminates_witness:
  "state_at (Suc 0) two_page_fetcher ''https://os.zhdk.cloud.switch.ch/envicloud/'' None
       (init_state [])
     = Some ((init_state [])
         \<lparr>page_count := 1, requests := [None], marker := Some ''b'',
          rows := [row_of ''https://os.zhdk.cloud.switch.ch/envicloud/'' (entry ''a''),
                   row_of ''https://os.zhdk.cloud.switch.ch/envicloud/'' (entry ''b'')]\<rparr>)
   \<and> pass_stop two_page_fetcher None
       ((init_state [])
         \<lparr>page_count := 1, requests := [None], marker := Some ''b'',
          rows := [row_of ''https://os.zhdk.cloud.switch.ch/envicloud/'' (entry ''a''),
                   row_of ''https://os.zhdk.cloud.switch.ch/envicloud/'' (entry ''b'')]\<rparr>)
     = Some (Inr Not_truncated)
   \<and> crawl_loop two_page_fetcher ''https://os.zhdk.cloud.switch.ch/envicloud/'' None
       (init_state [])
     = Some (Inr Not_truncated,
         (init_state [])
           \<lparr>page_count := 2, requests := [None, Some ''b''], marker := Some ''b'',
            rows := [row_of ''https://os.zhdk.cloud.switch.ch/envicloud/'' (entry ''a''),
                     row_of ''https://os.zhdk.cloud.switch.ch/envicloud/'' (entry ''b''),
                     row_of ''https://os.zhdk.cloud.switch.ch/envicloud/'' (entry ''c'')]\<rparr>)
   \<and> crawl_loop endless_fetcher ''https://os.zhdk.cloud.switch.ch/envicloud/'' (Some 2)
       (init_state [])
     = Some (Inr Max_pages,
         (init_state [])
           \<lparr>page_count := 2, requests := [None, Some ''a''], marker := Some ''a'',
            rows := [row_of ''https://os.zhdk.cloud.switch.ch/envicloud/'' (entry ''a''),
                     row_of ''https://os.zhdk.cloud.switch.ch/envicloud/'' (entry ''a'')]\<rparr>)"
proof -
  let ?url = "''https://os.zhdk.cloud.switch.ch/envicloud/''"
  let ?s1 = "(init_state [])
           \<lparr>page_count := 1, requests := [None], marker := Some ''b'',
            rows := [row_of ?url (entry ''a''), row_of ?url (entry ''b'')]\<rparr>"
  let ?s2 = "(init_state [])
           \<lparr>page_count := 2, requests := [None, Some ''b''], marker := Some ''b'',
            rows := [row_of ?url (entry ''a''), row_of ?url (entry ''b''),
                     row_of ?url (entry ''c'')]\<rparr>"
  let ?e1 = "(init_state [])
           \<lparr>page_count := 1, requests := [None], marker := Some ''a'',
            rows := [row_of ?url (entry ''a'')]\<rparr>"
  let ?e2 = "(init_state [])
           \<lparr>page_count := 2, requests := [None, Some ''a''], marker := Some ''a'',
            rows := [row_of ?url (entry ''a''), row_of ?url (entry ''a'')]\<rparr>"
  note defs = crawl_iteration_def Let_def two_page_fetcher_def endless_fetcher_def
    init_state_def marker_param_def truthy_def is_truncated_def next_marker_def last_key_def
    lower_def lower_char_def filter_content_def lower_key_def entry_def
    safe_find_text_def bucket_name_of_def rstrip_slash_def split_slash_last_def
  have a1: "crawl_iteration two_page_fetcher ?url None (init_state []) = Inr ?s1"
    by (simp add: defs)
  have a2: "crawl_iteration two_page_fetcher ?url None ?s1 = Inl (Inr Not_truncated, ?s2)"
    by (simp add: defs)
  have b1: "crawl_iteration endless_fetcher ?url (Some 2) (init_state []) = Inr ?e1"
    by (simp add: defs)
  have b2: "crawl_iteration endless_fetcher ?url (Some 2) ?e1 = Inl (Inr Max_pages, ?e2)"
    by (simp add: defs)
  have h1: "state_at (Suc 0) two_page_fetcher ?url None (init_state []) = Some ?s1"
    by (simp add: a1)
  have h2: "pass_stop two_page_fetcher None ?s1 = Some (Inr Not_truncated)"
    using pass_stop_Inl [OF a2] by simp
  have g1: "state_at (Suc 0) endless_fetcher ?url (Some 2) (init_state []) = Some ?e1"
    by (simp add: b1)
  have g2: "pass_stop endless_fetcher (Some 2) ?e1 = Some (Inr Max_pages)"
    using pass_stop_Inl [OF b2] by simp
  from crawl_terminates [where k = "Suc 0" and fetch = two_page_fetcher and url = ?url
      and max_pages = None and s = "init_state []" and t = ?s1 and x = "Inr Not_truncated"]
    h1 h2
  have "\<exists>t'. crawl_iteration two_page_fetcher ?url None ?s1 = Inl (Inr Not_truncated, t')
          \<and> crawl_loop two_page_fetcher ?url None (init_state []) = Some (Inr Not_truncated, t')"
    by blast
  with a2 have 1: "crawl_loop two_page_fetcher ?url None (init_state [])
                     = Some (Inr Not_truncated, ?s2)"
    by simp
  from crawl_terminates [where k = "Suc 0" and fetch = endless_fetcher and url = ?url
      and max_pages = "Some 2" and s = "init_state []" and t = ?e1 and x = "Inr Max_pages"]
    g1 g2
  have "\<exists>t'. crawl_iteration endless_fetcher ?url (Some 2) ?e1 = Inl (Inr Max_pages, t')
          \<and> crawl_loop endless_fetcher ?url (Some 2) (init_state []) = Some (Inr Max_pages, t')"
    by blast
  with b2 have 2: "crawl_loop endless_fetcher ?url (Some 2) (init_state [])
                     = Some (Inr Max_pages, ?e2)"
    by simp
  from h1 h2 1 2 show ?thesis by blast
qed

text \<open>
  Claim C2 as stated fails: with no maximum page count, against a server that answers
  every request with a truncated page of one entry, the loop never returns.
\<close>

lemma endless_fetcher_goes_on:
  "\<exists>s'. crawl_iteration endless_fetcher url None s = Inr s'"
  by (simp add: crawl_iteration_def Let_def endless_fetcher_def entry_def is_truncated_def
      next_marker_def last_key_def lower_def lower_char_def)

theorem crawl_runs_forever_counterexample:
  "list_s3_bucket_to_csv endless_fetcher ''https://os.zhdk.cloud.switch.ch/envicloud/'' None []
     = None"
proof (cases "list_s3_bucket_to_csv endless_fetcher
                ''https://os.zhdk.cloud.switch.ch/envicloud/'' None []")
  case None
  then show ?thesis .
next
  case (Some y)
  have "\<not> (fetch = endless_fetcher \<and> mp = None)"
    if "crawl_loop fetch url mp s = Some y" for fetch url mp s
    using that
  proof (rule crawl_loop.raw_induct
      [where P = "\<lambda>fetch url mp s y. \<not> (fetch = endless_fetcher \<and> mp = None)", rotated])
    fix crawl_loop' fetch url mp s y
    assume ih: "\<And>fetch url mp s y. crawl_loop' fetch url mp s = Some y
                 \<Longrightarrow> \<not> (fetch = endless_fetcher \<and> mp = None)"
      and eq: "(case crawl_iteration fetch url mp s of Inl r \<Rightarrow> Some r
               | Inr s' \<Rightarrow> crawl_loop' fetch url mp s') = Some y"
    show "\<not> (fetch = endless_fetcher \<and> mp = None)"
    proof
      assume a: "fetch = endless_fetcher \<and> mp = None"
      then obtain s' where "crawl_iteration fetch url mp s = Inr s'"
        using endless_fetcher_goes_on by blast
      with eq have "crawl_loop' fetch url mp s' = Some y" by simp
      from ih [OF this] a show False by blast
    qed
  qed
  with Some show ?thesis by (auto simp: list_s3_bucket_to_csv_def)
qed

subsection \<open>The truncation flag\<close>

text \<open>
  Claim C10. A page whose \<open>IsTruncated\<close> element is absent, or present with a non-empty
  text that is not \<open>true\<close> in lower case, ends the crawl of the bucket right after its
  entries are processed; and a pass goes round again only when the text of the element
  is \<open>true\<close> in lower case.
\<close>

theorem not_truncated_stops:
  "(fetch (page_count s) (marker_param (marker s)) = Inr pg
      \<and> (IsTruncated pg = None
          \<or> (\<exists>t. IsTruncated pg = Some (Elem (Some t)) \<and> t \<noteq> [] \<and> lower t \<noteq> ''true''))
     \<longrightarrow> crawl_loop fetch url max_pages s
          = Some (Inr Not_truncated,
              (write_contents url (Contents pg)
                 (s\<lparr>requests := requests s @ [marker_param (marker s)]\<rparr>))
               \<lparr>page_count := page_count s + 1\<rparr>))
   \<and> (crawl_iteration fetch url max_pages s = Inr s'
     \<longrightarrow> (\<exists>pg t. fetch (page_count s) (marker_param (marker s)) = Inr pg
            \<and> IsTruncated pg = Some (Elem (Some t)) \<and> lower t = ''true''))"
proof (intro conjI impI)
  assume a: "fetch (page_count s) (marker_param (marker s)) = Inr pg
      \<and> (IsTruncated pg = None
          \<or> (\<exists>t. IsTruncated pg = Some (Elem (Some t)) \<and> t \<noteq> [] \<and> lower t \<noteq> ''true''))"
  then have "is_truncated pg = Inr False"
    by (auto simp: is_truncated_def)
  with a have "crawl_iteration fetch url max_pages s = Inl (Inr Not_truncated,
              (write_contents url (Contents pg)
                 (s\<lparr>requests := requests s @ [marker_param (marker s)]\<rparr>))
               \<lparr>page_count := page_count s + 1\<rparr>)"
    by (simp add: crawl_iteration_def Let_def)
  then show "crawl_loop fetch url max_pages s
          = Some (Inr Not_truncated,
              (write_contents url (Contents pg)
                 (s\<lparr>requests := requests s @ [marker_param (marker s)]\<rparr>))
               \<lparr>page_count := page_count s + 1\<rparr>)"
    by (rule crawl_loop_Inl)
next
  assume "crawl_iteration fetch url max_pages s = Inr s'"
  from crawl_iteration_Inr [OF this]
  show "\<exists>pg t. fetch (page_count s) (marker_param (marker s)) = Inr pg
            \<and> IsTruncated pg = Some (Elem (Some t)) \<and> lower t = ''true''"
    by (auto simp: is_truncated_True_iff)
qed

text \<open>
  The page with the flag \<open>False\<close> stops the crawl although it carries a next marker, and
  the first page of the two-page server, the flag of which is \<open>true\<close>, does not.
\<close>

theorem not_truncated_stops_witness:
  "crawl_loop last_page_fetcher ''https://os.zhdk.cloud.switch.ch/envicloud/'' None
       (init_state [])
     = Some (Inr Not_truncated, (init_state []) \<lparr>page_count := 1, requests := [None]\<rparr>)
   \<and> crawl_iteration two_page_fetcher ''https://os.zhdk.cloud.switch.ch/envicloud/'' None
       (init_state [])
     = Inr ((init_state [])
         \<lparr>page_count := 1, requests := [None], marker := Some ''b'',
          rows := [row_of ''https://os.zhdk.cloud.switch.ch/envicloud/'' (entry ''a''),
                   row_of ''https://os.zhdk.cloud.switch.ch/envicloud/'' (entry ''b'')]\<rparr>)
   \<and> (\<exists>pg t. two_page_fetcher (page_count (init_state []))
                 (marker_param (marker (init_state []))) = Inr pg
            \<and> IsTruncated pg = Some (Elem (Some t)) \<and> lower t = ''true'')"
proof -
  let ?url = "''https://os.zhdk.cloud.switch.ch/envicloud/''"
  let ?pg = "\<lparr>Contents = [], IsTruncated = Some (Elem (Some ''False'')),
          NextMarker = Some (Elem (Some ''k''))\<rparr>"
  have a: "last_page_fetcher (page_count (init_state [])) (marker_param (marker (init_state [])))
             = Inr ?pg
      \<and> (IsTruncated ?pg = None
          \<or> (\<exists>t. IsTruncated ?pg = Some (Elem (Some t)) \<and> t \<noteq> [] \<and> lower t \<noteq> ''true''))"
    by (simp add: last_page_fetcher_def lower_def lower_char_def)
  have b: "crawl_iteration two_page_fetcher ?url None (init_state [])
     = Inr ((init_state [])
         \<lparr>page_count := 1, requests := [None], marker := Some ''b'',
          rows := [row_of ?url (entry ''a''), row_of ?url (entry ''b'')]\<rparr>)"
    by (simp add: crawl_iteration_def Let_def two_page_fetcher_def init_state_def
        marker_param_def truthy_def is_truncated_def next_marker_def last_key_def
        lower_def lower_char_def filter_content_def lower_key_def entry_def
        safe_find_text_def bucket_name_of_def rstrip_slash_def split_slash_last_def)
  from not_truncated_stops [of last_page_fetcher "init_state []" ?pg ?url None] a
  have 1: "crawl_loop last_page_fetcher ?url None (init_state [])
     = Some (Inr Not_truncated, (init_state []) \<lparr>page_count := 1, requests := [None]\<rparr>)"
    by (simp add: init_state_def marker_param_def truthy_def)
  from not_truncated_stops [of two_page_fetcher "init_state []" _ ?url None] b
  have 2: "\<exists>pg t. two_page_fetcher (page_count (init_state []))
                 (marker_param (marker (init_state []))) = Inr pg
            \<and> IsTruncated pg = Some (Elem (Some t)) \<and> lower t = ''true''"
    by blast
  from 1 b 2 show ?thesis by blast
qed

subsection \<open>The next marker\<close>

text \<open>
  Claim C7. After a truncated page, the marker is the text of \<open>NextMarker\<close> when that
  element is present with a non-empty text, and otherwise (the page having entries) the
  text of the \<open>Key\<close> of the last entry; when the loop goes round again, the next pass
  issues its request with that marker.
\<close>

theorem next_request_marker:
  assumes "fetch (page_count s) (marker_param (marker s)) = Inr pg"
      and "is_truncated pg = Inr True"
  shows "(\<forall>m. NextMarker pg = Some (Elem (Some m)) \<and> m \<noteq> [] \<longrightarrow>
            next_marker pg = Some (Some m))
     \<and> ((NextMarker pg = None \<or> (\<exists>tag. NextMarker pg = Some tag \<and> \<not> truthy (text_of tag)))
          \<and> Contents pg \<noteq> [] \<longrightarrow>
            next_marker pg
              = Some (case Key (last (Contents pg)) of None \<Rightarrow> None | Some lk \<Rightarrow> text_of lk))
     \<and> (\<forall>s'. crawl_iteration fetch url max_pages s = Inr s' \<longrightarrow>
            next_marker pg = Some (marker s')
          \<and> crawl_loop fetch url max_pages s = crawl_loop fetch url max_pages s'
          \<and> requests (state_of (crawl_iteration fetch url max_pages s'))
              = requests s @ [marker_param (marker s), marker_param (marker s')])"
proof (intro conjI allI impI)
  fix m
  assume "NextMarker pg = Some (Elem (Some m)) \<and> m \<noteq> []"
  then show "next_marker pg = Some (Some m)"
    by (simp add: next_marker_def truthy_def)
next
  assume "(NextMarker pg = None \<or> (\<exists>tag. NextMarker pg = Some tag \<and> \<not> truthy (text_of tag)))
          \<and> Contents pg \<noteq> []"
  then show "next_marker pg
              = Some (case Key (last (Contents pg)) of None \<Rightarrow> None | Some lk \<Rightarrow> text_of lk)"
    by (auto simp: next_marker_def last_key_def)
next
  fix s'
  assume a: "crawl_iteration fetch url max_pages s = Inr s'"
  from crawl_iteration_Inr [OF a] assms(1)
  show "next_marker pg = Some (marker s')" by auto
  from a show "crawl_loop fetch url max_pages s = crawl_loop fetch url max_pages s'"
    by (rule crawl_loop_Inr)
  from crawl_iteration_requests [of fetch url max_pages s] a
  have "requests s' = requests s @ [marker_param (marker s)]"
    by (simp add: state_of_def)
  then show "requests (state_of (crawl_iteration fetch url max_pages s'))
              = requests s @ [marker_param (marker s), marker_param (marker s')]"
    by (simp add: crawl_iteration_requests)
qed
text \<open>
  The two-page server sends no \<open>NextMarker\<close>: after its first page, with the entries
  \<open>a\<close> and \<open>b\<close>, the second request carries the marker \<open>b\<close>, and the crawl writes the
  three rows in order.
\<close>

theorem next_request_marker_witness:
  "next_marker \<lparr>Contents = [entry ''a'', entry ''b''],
                IsTruncated = Some (Elem (Some ''true'')), NextMarker = None\<rparr>
     = Some (Some ''b'')
   \<and> requests (state_of (crawl_iteration two_page_fetcher
        ''https://os.zhdk.cloud.switch.ch/envicloud/'' None
        ((init_state [])
           \<lparr>page_count := 1, requests := [None], marker := Some ''b'',
            rows := [row_of ''https://os.zhdk.cloud.switch.ch/envicloud/'' (entry ''a''),
                     row_of ''https://os.zhdk.cloud.switch.ch/envicloud/'' (entry ''b'')]\<rparr>)))
     = [None, Some ''b'']
   \<and> list_s3_bucket_to_csv two_page_fetcher ''https://os.zhdk.cloud.switch.ch/envicloud/''
        None []
     = Some (Inr Not_truncated,
         (init_state [])
           \<lparr>page_count := 2, requests := [None, Some ''b''], marker := Some ''b'',
            rows := [row_of ''https://os.zhdk.cloud.switch.ch/envicloud/'' (entry ''a''),
                     row_of ''https://os.zhdk.cloud.switch.ch/envicloud/'' (entry ''b''),
                     row_of ''https://os.zhdk.cloud.switch.ch/envicloud/'' (entry ''c'')]\<rparr>)"
proof -
  let ?url = "''https://os.zhdk.cloud.switch.ch/envicloud/''"
  let ?pg = "\<lparr>Contents = [entry ''a'', entry ''b''],
                IsTruncated = Some (Elem (Some ''true'')), NextMarker = None\<rparr>"
  let ?s1 = "(init_state [])
           \<lparr>page_count := 1, requests := [None], marker := Some ''b'',
            rows := [row_of ?url (entry ''a''), row_of ?url (entry ''b'')]\<rparr>"
  have h1: "two_page_fetcher (page_count (init_state [])) (marker_param (marker (init_state [])))
              = Inr ?pg"
    by (simp add: two_page_fetcher_def init_state_def marker_param_def truthy_def)
  have h2: "is_truncated ?pg = Inr True"
    by (simp add: is_truncated_def lower_def lower_char_def)
  have b: "crawl_iteration two_page_fetcher ?url None (init_state []) = Inr ?s1"
    by (simp add: crawl_iteration_def Let_def two_page_fetcher_def init_state_def
        marker_param_def truthy_def is_truncated_def next_marker_def last_key_def
        lower_def lower_char_def filter_content_def lower_key_def entry_def
        safe_find_text_def bucket_name_of_def rstrip_slash_def split_slash_last_def)
  have c: "crawl_iteration two_page_fetcher ?url None ?s1
     = Inl (Inr Not_truncated,
         (init_state [])
           \<lparr>page_count := 2, requests := [None, Some ''b''], marker := Some ''b'',
            rows := [row_of ?url (entry ''a''), row_of ?url (entry ''b''),
                     row_of ?url (entry ''c'')]\<rparr>)"
    by (simp add: crawl_iteration_def Let_def two_page_fetcher_def init_state_def
        marker_param_def truthy_def is_truncated_def
        lower_def lower_char_def filter_content_def lower_key_def entry_def
        safe_find_text_def bucket_name_of_def rstrip_slash_def split_slash_last_def)
  note t = next_request_marker [where fetch = two_page_fetcher and s = "init_state []"
      and pg = ?pg and url = ?url and max_pages = None, OF h1 h2]
  from t have 1: "next_marker ?pg = Some (Some ''b'')"
    by (simp add: entry_def)
  from t b have 2: "requests (state_of (crawl_iteration two_page_fetcher ?url None ?s1))
                      = [None, Some ''b'']"
    by (simp add: init_state_def marker_param_def truthy_def)
  from t b have "crawl_loop two_page_fetcher ?url None (init_state [])
                   = crawl_loop two_page_fetcher ?url None ?s1"
    by blast
  with crawl_loop_Inl [OF c]
  have 3: "list_s3_bucket_to_csv two_page_fetcher ?url None []
     = Some (Inr Not_truncated,
         (init_state [])
           \<lparr>page_count := 2, requests := [None, Some ''b''], marker := Some ''b'',
            rows := [row_of ?url (entry ''a''), row_of ?url (entry ''b''),
                     row_of ?url (entry ''c'')]\<rparr>)"
    by (simp add: list_s3_bucket_to_csv_def)
  from 1 2 3 show ?thesis by blast
qed

subsection \<open>The guard against an unchanged marker\<close>

text \<open>
  Claim C8. A truncated page with no entries and no usable \<open>NextMarker\<close> ends the crawl
  of the bucket in that pass: no further request is issued, the one message is logged
  at warning level, the function returns without an exception, and \<open>cmd_fetch\<close> goes
  on with the remaining buckets.
\<close>

theorem no_progress_guard:
  assumes "fetch (page_count s) (marker_param (marker s)) = Inr pg"
      and "is_truncated pg = Inr True"
      and "Contents pg = []"
      and "NextMarker pg = None \<or> (\<exists>tag. NextMarker pg = Some tag \<and> \<not> truthy (text_of tag))"
  shows "crawl_loop fetch url max_pages s
           = Some (Inr No_contents,
               s\<lparr>requests := requests s @ [marker_param (marker s)],
                 page_count := page_count s + 1,
                 warnings := warnings s @ [no_contents_warning]\<rparr>)
     \<and> (\<forall>fetches buckets out t.
           list_s3_bucket_to_csv (fetches url) url max_pages out = Some (Inr No_contents, t)
             \<longrightarrow> cmd_fetch fetches (url # buckets) max_pages out
                  = cmd_fetch fetches buckets max_pages (rows t))"
proof
  from assms have "next_marker pg = None"
    by (auto simp: next_marker_def last_key_def)
  with assms have "crawl_iteration fetch url max_pages s
           = Inl (Inr No_contents,
               s\<lparr>requests := requests s @ [marker_param (marker s)],
                 page_count := page_count s + 1,
                 warnings := warnings s @ [no_contents_warning]\<rparr>)"
    by (simp add: crawl_iteration_def Let_def)
  then show "crawl_loop fetch url max_pages s
           = Some (Inr No_contents,
               s\<lparr>requests := requests s @ [marker_param (marker s)],
                 page_count := page_count s + 1,
                 warnings := warnings s @ [no_contents_warning]\<rparr>)"
    by (rule crawl_loop_Inl)
next
  show "\<forall>fetches buckets out t.
           list_s3_bucket_to_csv (fetches url) url max_pages out = Some (Inr No_contents, t)
             \<longrightarrow> cmd_fetch fetches (url # buckets) max_pages out
                  = cmd_fetch fetches buckets max_pages (rows t)"
    by simp
qed

text \<open>
  Two buckets whose server answers with the empty truncated page: each crawl stops after
  its one request with the warning, and the run ends without an exception.
\<close>

theorem no_progress_guard_witness:
  "crawl_loop empty_truncated_fetcher ''https://os.zhdk.cloud.switch.ch/envicloud/'' None
       (init_state [])
     = Some (Inr No_contents,
         (init_state []) \<lparr>requests := [None], page_count := 1,
                           warnings := [no_contents_warning]\<rparr>)
   \<and> cmd_fetch (\<lambda>bucket. empty_truncated_fetcher)
       [''https://os.zhdk.cloud.switch.ch/envicloud/'', ''https://os.zhdk.cloud.switch.ch/edna/'']
       None []
     = Some (Inr (), [])"
proof -
  let ?pg = "\<lparr>Contents = [], IsTruncated = Some (Elem (Some ''true'')), NextMarker = None\<rparr>"
  have h1: "empty_truncated_fetcher (page_count (init_state []))
              (marker_param (marker (init_state []))) = Inr ?pg"
    by (simp add: empty_truncated_fetcher_def)
  have h2: "is_truncated ?pg = Inr True"
    by (simp add: is_truncated_def lower_def lower_char_def)
  have h3: "Contents ?pg = []" by simp
  have h4: "NextMarker ?pg = None \<or> (\<exists>tag. NextMarker ?pg = Some tag \<and> \<not> truthy (text_of tag))"
    by simp
  note t1 = no_progress_guard [where fetch = empty_truncated_fetcher and s = "init_state []"
      and pg = ?pg and url = "''https://os.zhdk.cloud.switch.ch/envicloud/''"
      and max_pages = None, OF h1 h2 h3 h4]
  note t2 = no_progress_guard [where fetch = empty_truncated_fetcher and s = "init_state []"
      and pg = ?pg and url = "''https://os.zhdk.cloud.switch.ch/edna/''"
      and max_pages = None, OF h1 h2 h3 h4]
  from t1 have 1: "crawl_loop empty_truncated_fetcher
       ''https://os.zhdk.cloud.switch.ch/envicloud/'' None (init_state [])
     = Some (Inr No_contents,
         (init_state []) \<lparr>requests := [None], page_count := 1,
                           warnings := [no_contents_warning]\<rparr>)"
    by (simp add: init_state_def marker_param_def truthy_def)
  from t2 have 2: "crawl_loop empty_truncated_fetcher
       ''https://os.zhdk.cloud.switch.ch/edna/'' None (init_state [])
     = Some (Inr No_contents,
         (init_state []) \<lparr>requests := [None], page_count := 1,
                           warnings := [no_contents_warning]\<rparr>)"
    by (simp add: init_state_def marker_param_def truthy_def)
  from 1 2 have "cmd_fetch (\<lambda>bucket. empty_truncated_fetcher)
       [''https://os.zhdk.cloud.switch.ch/envicloud/'', ''https://os.zhdk.cloud.switch.ch/edna/'']
       None []
     = Some (Inr (), [])"
    by (simp add: list_s3_bucket_to_csv_def init_state_def)
  with 1 show ?thesis by blast
qed

section \<open>Properties of the extension label\<close>

lemma py_in_single: "py_in [c] s \<longleftrightarrow> c \<in> set s"
  by (induction s) auto

lemma strip_empty: "strip s = [] \<Longrightarrow> list_all isspace s"
proof -
  assume a: "strip s = []"
  have "dropWhile isspace s = []"
  proof (rule ccontr)
    assume n: "dropWhile isspace s \<noteq> []"
    then have "\<not> isspace (hd (dropWhile isspace s))" by (rule hd_dropWhile)
    moreover from n have "hd (dropWhile isspace s) \<in> set (rev (dropWhile isspace s))" by simp
    ultimately have "dropWhile isspace (rev (dropWhile isspace s)) \<noteq> []"
      by (auto simp: dropWhile_eq_Nil_conv simp del: set_rev)
    with a show False by (simp add: strip_def)
  qed
  then show ?thesis by (simp add: dropWhile_eq_Nil_conv list_all_iff)
qed

text \<open>The string around the last occurrence of a character.\<close>

lemma rfind_split:
  assumes "c \<in> set s"
  obtains a b where "s = a @ c # b" and "c \<notin> set b" and "rfind s c = int (length a)"
proof -
  define tw where "tw = takeWhile (\<lambda>x. x \<noteq> c) (rev s)"
  define dw where "dw = dropWhile (\<lambda>x. x \<noteq> c) (rev s)"
  from assms have "dw \<noteq> []" by (simp add: dw_def dropWhile_eq_Nil_conv)
  moreover from this have "hd dw = c"
    using hd_dropWhile [of "\<lambda>x. x \<noteq> c" "rev s"] by (simp add: dw_def)
  ultimately obtain ys where dw: "dw = c # ys" by (cases dw) auto
  have "rev s = tw @ dw" by (simp add: tw_def dw_def)
  then have "rev (rev s) = rev (tw @ c # ys)" using dw by simp
  then have s: "s = rev ys @ c # rev tw" by simp
  have notin: "c \<notin> set (rev tw)"
    using set_takeWhileD [of c "\<lambda>x. x \<noteq> c" "rev s"] by (auto simp: tw_def)
  have "length s = length ys + 1 + length tw" by (subst s) simp
  then have "rfind s c = int (length (rev ys))"
    using assms by (simp add: rfind_def tw_def)
  with s notin show ?thesis using that by blast
qed

lemma rfind_notin: "c \<notin> set s \<Longrightarrow> rfind s c = - 1"
  by (simp add: rfind_def)

lemma basename_no_slash: "CHR ''/'' \<notin> set (basename s)"
proof (cases "CHR ''/'' \<in> set s")
  case True
  then obtain a b where "s = a @ CHR ''/'' # b" "CHR ''/'' \<notin> set b"
    "rfind s CHR ''/'' = int (length a)" by (rule rfind_split)
  then show ?thesis by (simp add: basename_def slice_from_def nat_add_distrib)
next
  case False
  then show ?thesis by (simp add: basename_def slice_from_def rfind_notin)
qed

lemma basename_subset: "set (basename s) \<subseteq> set s"
  by (simp add: basename_def slice_from_def set_drop_subset)

lemma skip_dots_iff:
  "skip_dots p f d \<longleftrightarrow> (\<exists>i. f \<le> i \<and> i < d \<and> slice_to (slice_from p i) 1 \<noteq> ''.'')"
proof (induction p f d rule: skip_dots.induct)
  case (1 p f d)
  show ?case
  proof (cases "f < d")
    case False
    then show ?thesis by (subst skip_dots.simps) auto
  next
    case True
    show ?thesis
    proof (cases "slice_to (slice_from p f) 1 \<noteq> ''.''")
      case True
      with \<open>f < d\<close> show ?thesis by (subst skip_dots.simps) auto
    next
      case False
      with \<open>f < d\<close> have "skip_dots p f d = skip_dots p (f + 1) d"
        by (subst skip_dots.simps) simp
      also have "\<dots> \<longleftrightarrow> (\<exists>i. f + 1 \<le> i \<and> i < d \<and> slice_to (slice_from p i) 1 \<noteq> ''.'')"
        using 1 True False by simp
      also have "\<dots> \<longleftrightarrow> (\<exists>i. f \<le> i \<and> i < d \<and> slice_to (slice_from p i) 1 \<noteq> ''.'')"
      proof
        assume "\<exists>i. f + 1 \<le> i \<and> i < d \<and> slice_to (slice_from p i) 1 \<noteq> ''.''"
        then obtain i where "f + 1 \<le> i \<and> i < d \<and> slice_to (slice_from p i) 1 \<noteq> ''.''" by blast
        then have "f \<le> i \<and> i < d \<and> slice_to (slice_from p i) 1 \<noteq> ''.''" by simp
        then show "\<exists>i. f \<le> i \<and> i < d \<and> slice_to (slice_from p i) 1 \<noteq> ''.''" by blast
      next
        assume "\<exists>i. f \<le> i \<and> i < d \<and> slice_to (slice_from p i) 1 \<noteq> ''.''"
        then obtain i where i: "f \<le> i \<and> i < d \<and> slice_to (slice_from p i) 1 \<noteq> ''.''" by blast
        with False have "i \<noteq> f" by auto
        with i have "f + 1 \<le> i \<and> i < d \<and> slice_to (slice_from p i) 1 \<noteq> ''.''" by simp
        then show "\<exists>i. f + 1 \<le> i \<and> i < d \<and> slice_to (slice_from p i) 1 \<noteq> ''.''" by blast
      qed
      finally show ?thesis .
    qed
  qed
qed

lemma slice_one: "i < length p \<Longrightarrow> slice_to (slice_from p (int i)) 1 = [p ! i]"
  by (simp add: slice_to_def slice_from_def take_Suc_conv_app_nth hd_drop_conv_nth take_Suc)

lemma skip_dots_prefix:
  "skip_dots (a @ c # b) 0 (int (length a)) \<longleftrightarrow> \<not> list_all (\<lambda>x. x = CHR ''.'') a"
proof -
  have "skip_dots (a @ c # b) 0 (int (length a))
      \<longleftrightarrow> (\<exists>i. 0 \<le> i \<and> i < int (length a) \<and> slice_to (slice_from (a @ c # b) i) 1 \<noteq> ''.'')"
    by (rule skip_dots_iff)
  also have "\<dots> \<longleftrightarrow> (\<exists>j<length a. a ! j \<noteq> CHR ''.'')"
  proof
    assume "\<exists>i. 0 \<le> i \<and> i < int (length a) \<and> slice_to (slice_from (a @ c # b) i) 1 \<noteq> ''.''"
    then obtain i where i: "0 \<le> i" "i < int (length a)"
       "slice_to (slice_from (a @ c # b) i) 1 \<noteq> ''.''" by blast
    then have "nat i < length (a @ c # b)" by simp
    from slice_one [OF this] i have "(a @ c # b) ! nat i \<noteq> CHR ''.''" by simp
    moreover from i have "nat i < length a" by simp
    ultimately have "a ! nat i \<noteq> CHR ''.''" by (simp add: nth_append)
    with i show "\<exists>j<length a. a ! j \<noteq> CHR ''.''" by (intro exI [of _ "nat i"]) simp
  next
    assume "\<exists>j<length a. a ! j \<noteq> CHR ''.''"
    then obtain j where j: "j < length a" "a ! j \<noteq> CHR ''.''" by blast
    then have "j < length (a @ c # b)" by simp
    from slice_one [OF this] j have "slice_to (slice_from (a @ c # b) (int j)) 1 \<noteq> ''.''"
      by (simp add: nth_append)
    with j show "\<exists>i. 0 \<le> i \<and> i < int (length a) \<and> slice_to (slice_from (a @ c # b) i) 1 \<noteq> ''.''"
      by (intro exI [of _ "int j"]) simp
  qed
  also have "\<dots> \<longleftrightarrow> \<not> list_all (\<lambda>x. x = CHR ''.'') a"
    by (auto simp: list_all_length)
  finally show ?thesis .
qed

text \<open>The label of a name that holds a dot and no slash.\<close>

lemma splitext_basename:
  assumes "CHR ''/'' \<notin> set base" and "CHR ''.'' \<in> set base"
  shows "snd (splitext base) = (if only_leading_dots base then [] else last_dot_suffix base)"
    and "last_dot_suffix base \<noteq> []"
proof -
  from assms(2) obtain a b where ab: "base = a @ CHR ''.'' # b" "CHR ''.'' \<notin> set b"
    "rfind base CHR ''.'' = int (length a)" by (rule rfind_split)
  from assms(1) have sep: "rfind base CHR ''/'' = - 1" by (rule rfind_notin)
  have old: "only_leading_dots base \<longleftrightarrow> list_all (\<lambda>x. x = CHR ''.'') a"
    using ab by (simp add: only_leading_dots_def slice_to_def)
  have sk: "skip_dots base 0 (int (length a)) \<longleftrightarrow> \<not> only_leading_dots base"
    using skip_dots_prefix [of a "CHR ''.''" b] old ab(1) by simp
  show "snd (splitext base) = (if only_leading_dots base then [] else last_dot_suffix base)"
    using sep ab(3) sk by (simp add: splitext_def last_dot_suffix_def Let_def)
  show "last_dot_suffix base \<noteq> []"
    using ab by (simp add: last_dot_suffix_def slice_from_def)
qed

lemma lower_Nil_iff: "lower s = [] \<longleftrightarrow> s = []"
  by (simp add: lower_def)

text \<open>
  Claim C6, as amended. The label is \<open><no_ext>\<close> for a missing or empty key, for a
  basename without a dot, and for a basename in which only dots come before the last
  dot (a name such as \<open>.bashrc\<close>); otherwise it is the lower-cased suffix that starts at
  the last dot of the basename. This holds whatever the case mapping does to the
  characters, as long as it maps no string but the empty one to the empty string.
\<close>

theorem get_ext_label:
  assumes "\<And>x. (str_lower x = []) = (x = [])"
  shows "get_ext str_lower k =
     (case k of
        None \<Rightarrow> ''<no_ext>''
      | Some s \<Rightarrow>
          if s = [] \<or> CHR ''.'' \<notin> set (basename s) then ''<no_ext>''
          else if only_leading_dots (basename s) then ''<no_ext>''
          else str_lower (last_dot_suffix (basename s)))"
proof (cases k)
  case None
  then show ?thesis by (simp add: get_ext_def)
next
  case (Some s)
  show ?thesis
  proof (cases "CHR ''.'' \<in> set (basename s)")
    case False
    then have "get_ext str_lower (Some s) = ''<no_ext>''"
      by (simp add: get_ext_def py_in_single)
    with False Some show ?thesis by simp
  next
    case True
    then have dot: "CHR ''.'' \<in> set s" using basename_subset by blast
    then have ne: "s \<noteq> []" by auto
    have ns: "strip s \<noteq> []"
    proof
      assume "strip s = []"
      then have "list_all isspace s" by (rule strip_empty)
      with dot have "isspace CHR ''.''" by (simp add: list_all_iff)
      then show False by (simp add: isspace_def)
    qed
    note sp = splitext_basename [OF basename_no_slash True]
    have "get_ext str_lower (Some s)
            = (if str_lower (snd (splitext (basename s))) = [] then ''<no_ext>''
               else str_lower (snd (splitext (basename s))))"
      using ns True by (simp add: get_ext_def py_in_single Let_def)
    also have "\<dots> = (if only_leading_dots (basename s) then ''<no_ext>''
                      else str_lower (last_dot_suffix (basename s)))"
      using sp by (simp add: assms)
    finally show ?thesis using Some True ne by simp
  qed
qed

text \<open>
  The three keys of the specification, with the case mapping of the ASCII letters: the
  labels are \<open><no_ext>\<close>, \<open>.gz\<close> and \<open><no_ext>\<close>.
\<close>

theorem get_ext_label_witness:
  "get_ext lower (Some ''data/readme'') = ''<no_ext>''
   \<and> get_ext lower (Some ''a/b.c.TAR.GZ'') = ''.gz''
   \<and> get_ext lower (Some []) = ''<no_ext>''"
proof -
  have h: "\<And>x. (lower x = []) = (x = [])" by (rule lower_Nil_iff)
  have 1: "get_ext lower (Some ''data/readme'') = ''<no_ext>''"
    using get_ext_label [of lower "Some ''data/readme''", OF h]
    by (simp add: basename_def rfind_def slice_from_def)
  have 2: "get_ext lower (Some ''a/b.c.TAR.GZ'') = ''.gz''"
    using get_ext_label [of lower "Some ''a/b.c.TAR.GZ''", OF h]
    by (simp add: basename_def rfind_def slice_from_def slice_to_def only_leading_dots_def
        last_dot_suffix_def lower_def lower_char_def)
  have 3: "get_ext lower (Some []) = ''<no_ext>''"
    using get_ext_label [of lower "Some []", OF h] by simp
  from 1 2 3 show ?thesis by blast
qed

text \<open>
  Claim C6 as stated fails: the basename \<open>.bashrc\<close> holds a dot, and the suffix that
  starts at its last dot is \<open>.bashrc\<close>, but the label is \<open><no_ext>\<close>.
\<close>

theorem get_ext_dotfile_counterexample:
  "get_ext lower (Some ''.bashrc'') = ''<no_ext>''
   \<and> get_ext_spec lower (Some ''.bashrc'') = ''.bashrc''
   \<and> get_ext lower (Some ''.bashrc'') \<noteq> get_ext_spec lower (Some ''.bashrc'')"
  by (simp add: get_ext_def strip_def isspace_def py_in_single splitext_def skip_dots.simps
      get_ext_spec_def basename_def rfind_def slice_from_def slice_to_def
      last_dot_suffix_def lower_def lower_char_def)

section \<open>The second filtering rule\<close>

lemma rfind_unique: "c \<notin> set y \<Longrightarrow> rfind (x @ c # y) c = int (length x)"
proof -
  assume a: "c \<notin> set y"
  have "takeWhile (\<lambda>z. z \<noteq> c) (rev (x @ c # y)) = takeWhile (\<lambda>z. z \<noteq> c) (rev y @ c # rev x)"
    by simp
  also have "\<dots> = rev y @ takeWhile (\<lambda>z. z \<noteq> c) (c # rev x)"
    using a by (intro takeWhile_append2) auto
  finally have "takeWhile (\<lambda>z. z \<noteq> c) (rev (x @ c # y)) = rev y" by simp
  then show ?thesis by (simp add: rfind_def)
qed

lemma skip_dots_mid:
  "skip_dots (x @ c @ d # y) (int (length x)) (int (length x + length c))
     \<longleftrightarrow> \<not> list_all (\<lambda>z. z = CHR ''.'') c"
proof -
  let ?p = "x @ c @ d # y"
  have "skip_dots ?p (int (length x)) (int (length x + length c))
      \<longleftrightarrow> (\<exists>i. int (length x) \<le> i \<and> i < int (length x + length c)
               \<and> slice_to (slice_from ?p i) 1 \<noteq> ''.'')"
    by (rule skip_dots_iff)
  also have "\<dots> \<longleftrightarrow> (\<exists>j<length c. c ! j \<noteq> CHR ''.'')"
  proof
    assume "\<exists>i. int (length x) \<le> i \<and> i < int (length x + length c)
               \<and> slice_to (slice_from ?p i) 1 \<noteq> ''.''"
    then obtain i where i: "int (length x) \<le> i" "i < int (length x + length c)"
       "slice_to (slice_from ?p i) 1 \<noteq> ''.''" by blast
    define j where "j = nat i - length x"
    from i have ij: "nat i = length x + j" "j < length c" by (auto simp: j_def)
    then have "nat i < length ?p" by simp
    from slice_one [OF this] i have "?p ! nat i \<noteq> CHR ''.''" by simp
    with ij have "c ! j \<noteq> CHR ''.''" by (simp add: nth_append)
    with ij show "\<exists>j<length c. c ! j \<noteq> CHR ''.''" by blast
  next
    assume "\<exists>j<length c. c ! j \<noteq> CHR ''.''"
    then obtain j where j: "j < length c" "c ! j \<noteq> CHR ''.''" by blast
    then have "length x + j < length ?p" by simp
    from slice_one [OF this] j
    have "slice_to (slice_from ?p (int (length x + j))) 1 \<noteq> ''.''"
      by (simp add: nth_append)
    with j show "\<exists>i. int (length x) \<le> i \<and> i < int (length x + length c)
               \<and> slice_to (slice_from ?p i) 1 \<noteq> ''.''"
      by (intro exI [of _ "int (length x + j)"]) simp
  qed
  also have "\<dots> \<longleftrightarrow> \<not> list_all (\<lambda>z. z = CHR ''.'') c"
    by (auto simp: list_all_length)
  finally show ?thesis .
qed

lemma drop_length_append: "drop (length xs) (xs @ ys) = ys"
  by simp

text \<open>
  The extension that \<open>os.path.splitext\<close> gives a path, in terms of its basename: the
  suffix from the last dot of the basename, unless the basename has no dot or nothing
  but dots before its last dot.
\<close>

lemma splitext_ext:
  "snd (splitext p)
     = (if CHR ''.'' \<in> set (basename p) \<and> \<not> only_leading_dots (basename p)
        then last_dot_suffix (basename p) else [])"
proof (cases "CHR ''/'' \<in> set p")
  case False
  then have bn: "basename p = p"
    by (simp add: basename_def slice_from_def rfind_notin)
  show ?thesis
  proof (cases "CHR ''.'' \<in> set p")
    case True
    from splitext_basename(1) [OF False True] bn True show ?thesis by simp
  next
    case nodot: False
    with False have "snd (splitext p) = []"
      by (simp add: splitext_def rfind_notin Let_def)
    with nodot bn show ?thesis by simp
  qed
next
  case True
  then obtain a b where ab: "p = a @ CHR ''/'' # b" "CHR ''/'' \<notin> set b"
    "rfind p CHR ''/'' = int (length a)" by (rule rfind_split)
  then have bn: "basename p = b"
    by (simp add: basename_def slice_from_def nat_add_distrib)
  show ?thesis
  proof (cases "CHR ''.'' \<in> set b")
    case True
    then obtain c d where cd: "b = c @ CHR ''.'' # d" "CHR ''.'' \<notin> set d"
      "rfind b CHR ''.'' = int (length c)" by (rule rfind_split)
    have p: "p = (a @ CHR ''/'' # c) @ CHR ''.'' # d" using ab cd by simp
    have dot: "rfind p CHR ''.'' = int (length a + 1 + length c)"
      by (subst p, subst rfind_unique [OF cd(2)]) simp
    have p2: "p = (a @ [CHR ''/'']) @ c @ CHR ''.'' # d" using p by simp
    have "skip_dots p (int (length (a @ [CHR ''/''])))
             (int (length (a @ [CHR ''/'']) + length c))
           \<longleftrightarrow> \<not> list_all (\<lambda>z. z = CHR ''.'') c"
      by (subst p2) (rule skip_dots_mid)
    then have sk: "skip_dots p (int (length a) + 1) (int (length a + 1 + length c))
           \<longleftrightarrow> \<not> list_all (\<lambda>z. z = CHR ''.'') c"
      by (simp add: add.commute)
    have old: "only_leading_dots b \<longleftrightarrow> list_all (\<lambda>z. z = CHR ''.'') c"
      using cd by (simp add: only_leading_dots_def slice_to_def)
    have suf: "last_dot_suffix b = CHR ''.'' # d"
      using cd by (simp add: last_dot_suffix_def slice_from_def)
    have "drop (length (a @ CHR ''/'' # c)) ((a @ CHR ''/'' # c) @ CHR ''.'' # d) = CHR ''.'' # d"
      by (rule drop_length_append)
    moreover have "nat (int (length a + 1 + length c)) = length (a @ CHR ''/'' # c)"
      by simp
    ultimately have drop: "slice_from p (int (length a + 1 + length c)) = CHR ''.'' # d"
      unfolding slice_from_def by (subst p) (simp only:)
    have "snd (splitext p) = (if \<not> list_all (\<lambda>z. z = CHR ''.'') c then CHR ''.'' # d else [])"
      unfolding splitext_def Let_def ab(3) dot using sk drop by simp
    with True bn old suf show ?thesis by simp
  next
    case False
    have "rfind p CHR ''.'' \<le> rfind p CHR ''/''"
    proof (cases "CHR ''.'' \<in> set p")
      case nodot: False
      then show ?thesis using ab(3) by (simp add: rfind_notin)
    next
      case True
      then obtain x y where xy: "p = x @ CHR ''.'' # y" "CHR ''.'' \<notin> set y"
        "rfind p CHR ''.'' = int (length x)" by (rule rfind_split)
      from ab(1) xy(1) have "a @ CHR ''/'' # b = x @ CHR ''.'' # y" by simp
      then obtain us where us: "(a = x @ us \<and> us @ CHR ''/'' # b = CHR ''.'' # y)
          \<or> (a @ us = x \<and> CHR ''/'' # b = us @ CHR ''.'' # y)"
        by (auto simp: append_eq_append_conv2)
      then have "length x \<le> length a"
      proof
        assume "a = x @ us \<and> us @ CHR ''/'' # b = CHR ''.'' # y"
        then show ?thesis by simp
      next
        assume h: "a @ us = x \<and> CHR ''/'' # b = us @ CHR ''.'' # y"
        show ?thesis
        proof (cases us)
          case Nil
          with h show ?thesis by simp
        next
          case (Cons u us')
          with h have "b = us' @ CHR ''.'' # y" by simp
          with False show ?thesis by simp
        qed
      qed
      with ab(3) xy(3) show ?thesis by simp
    qed
    then have "snd (splitext p) = []"
      by (simp add: splitext_def Let_def)
    with False bn show ?thesis by simp
  qed
qed

text \<open>
  Claim C4, as amended. An entry that passes Rule A is discarded by the second rule
  exactly when the bucket name is \<open>envidat-doi\<close> and the basename of its key has a
  dot with something other than dots before the last one, the suffix from that last dot
  being \<open>.html\<close>, \<open>.json\<close> or \<open>.xml\<close> in lower case: the extension as
  \<open>os.path.splitext\<close> gives it. In every other case, so in every other bucket, the
  row is written with the URL, the bucket name and the eight fields of the entry as
  extracted.
\<close>

theorem rule_b_only_in_envidat_doi:
  assumes "\<not> py_in ''envidat.1'' (lower_key c)"
  shows "filter_content url c
     = (if bucket_name_of url = ''envidat-doi''
           \<and> CHR ''.'' \<in> set (basename (key_or_empty c))
           \<and> \<not> only_leading_dots (basename (key_or_empty c))
           \<and> lower (last_dot_suffix (basename (key_or_empty c)))
                \<in> set [''.html'', ''.json'', ''.xml'']
        then Skipped_doi_meta
        else Written
          \<lparr>bucket_url = url,
           bucket_name = bucket_name_of url,
           key = safe_find_text (Key c),
           last_modified = safe_find_text (LastModified c),
           etag = safe_find_text (ETag c),
           size_col = safe_find_text (Size c),
           storage_class = safe_find_text (StorageClass c),
           owner_id = (case Owner c of None \<Rightarrow> Some [] | Some ow \<Rightarrow> safe_find_text (OwnerID ow)),
           owner_display_name =
             (case Owner c of None \<Rightarrow> Some [] | Some ow \<Rightarrow> safe_find_text (DisplayName ow)),
           type_col = safe_find_text (Type c)\<rparr>)
   \<and> rows (write_contents url [c] s)
     = (if bucket_name_of url = ''envidat-doi''
           \<and> CHR ''.'' \<in> set (basename (key_or_empty c))
           \<and> \<not> only_leading_dots (basename (key_or_empty c))
           \<and> lower (last_dot_suffix (basename (key_or_empty c)))
                \<in> set [''.html'', ''.json'', ''.xml'']
        then rows s
        else rows s @
          [\<lparr>bucket_url = url,
            bucket_name = bucket_name_of url,
            key = safe_find_text (Key c),
            last_modified = safe_find_text (LastModified c),
            etag = safe_find_text (ETag c),
            size_col = safe_find_text (Size c),
            storage_class = safe_find_text (StorageClass c),
            owner_id = (case Owner c of None \<Rightarrow> Some [] | Some ow \<Rightarrow> safe_find_text (OwnerID ow)),
            owner_display_name =
              (case Owner c of None \<Rightarrow> Some [] | Some ow \<Rightarrow> safe_find_text (DisplayName ow)),
            type_col = safe_find_text (Type c)\<rparr>])"
proof -
  define D where "D \<longleftrightarrow> bucket_name_of url = ''envidat-doi''
           \<and> CHR ''.'' \<in> set (basename (key_or_empty c))
           \<and> \<not> only_leading_dots (basename (key_or_empty c))
           \<and> lower (last_dot_suffix (basename (key_or_empty c)))
                \<in> set [''.html'', ''.json'', ''.xml'']"
  have "lower (snd (splitext (key_or_empty c))) \<in> set [''.html'', ''.json'', ''.xml'']
      \<longleftrightarrow> CHR ''.'' \<in> set (basename (key_or_empty c))
           \<and> \<not> only_leading_dots (basename (key_or_empty c))
           \<and> lower (last_dot_suffix (basename (key_or_empty c)))
                \<in> set [''.html'', ''.json'', ''.xml'']"
    by (simp add: splitext_ext lower_def)
  then have D: "D \<longleftrightarrow> bucket_name_of url = ''envidat-doi''
           \<and> lower (snd (splitext (key_or_empty c))) \<in> set [''.html'', ''.json'', ''.xml'']"
    unfolding D_def by blast
  have fc: "filter_content url c = (if D then Skipped_doi_meta else Written (row_of url c))"
    unfolding D using assms by (simp add: filter_content_def)
  have "filter_content url c = (if D then Skipped_doi_meta else Written (row_of url c))
      \<and> rows (write_contents url [c] s) = (if D then rows s else rows s @ [row_of url c])"
    by (cases D) (simp_all add: fc)
  then show ?thesis unfolding D_def row_of_def .
qed

text \<open>
  The key \<open>meta.json\<close> is discarded in \<open>envidat-doi\<close> and written, field by field,
  in \<open>envicloud\<close>.
\<close>

theorem rule_b_only_in_envidat_doi_witness:
  "filter_content ''https://os.zhdk.cloud.switch.ch/envidat-doi/''
       \<lparr>Key = Some (Elem (Some ''meta.json'')), LastModified = Some (Elem (Some ''2024-01-01'')),
        ETag = Some (Elem (Some ''e1'')), Size = Some (Elem (Some ''12'')),
        StorageClass = Some (Elem (Some ''STANDARD'')),
        Owner = Some \<lparr>OwnerID = Some (Elem (Some ''o1'')), DisplayName = None\<rparr>,
        Type = None\<rparr>
     = Skipped_doi_meta
   \<and> filter_content ''https://os.zhdk.cloud.switch.ch/envicloud/''
       \<lparr>Key = Some (Elem (Some ''meta.json'')), LastModified = Some (Elem (Some ''2024-01-01'')),
        ETag = Some (Elem (Some ''e1'')), Size = Some (Elem (Some ''12'')),
        StorageClass = Some (Elem (Some ''STANDARD'')),
        Owner = Some \<lparr>OwnerID = Some (Elem (Some ''o1'')), DisplayName = None\<rparr>,
        Type = None\<rparr>
     = Written
         \<lparr>bucket_url = ''https://os.zhdk.cloud.switch.ch/envicloud/'',
          bucket_name = ''envicloud'',
          key = Some ''meta.json'',
          last_modified = Some ''2024-01-01'',
          etag = Some ''e1'',
          size_col = Some ''12'',
          storage_class = Some ''STANDARD'',
          owner_id = Some ''o1'',
          owner_display_name = Some [],
          type_col = Some []\<rparr>"
proof -
  let ?c = "\<lparr>Key = Some (Elem (Some ''meta.json'')), LastModified = Some (Elem (Some ''2024-01-01'')),
        ETag = Some (Elem (Some ''e1'')), Size = Some (Elem (Some ''12'')),
        StorageClass = Some (Elem (Some ''STANDARD'')),
        Owner = Some \<lparr>OwnerID = Some (Elem (Some ''o1'')), DisplayName = None\<rparr>,
        Type = None\<rparr>"
  have a: "\<not> py_in ''envidat.1'' (lower_key ?c)"
    by (simp add: lower_key_def safe_find_text_def lower_def lower_char_def)
  have k: "key_or_empty ?c = ''meta.json''"
    by (simp add: key_or_empty_def safe_find_text_def)
  have b: "basename ''meta.json'' = ''meta.json''"
    by (simp add: basename_def rfind_def slice_from_def)
  have e: "\<not> only_leading_dots ''meta.json''"
      "lower (last_dot_suffix ''meta.json'') = ''.json''"
    by (simp_all add: only_leading_dots_def last_dot_suffix_def rfind_def slice_to_def
        slice_from_def lower_def lower_char_def)
  have c: "bucket_name_of ''https://os.zhdk.cloud.switch.ch/envidat-doi/'' = ''envidat-doi''"
    by (simp add: bucket_name_of_def rstrip_slash_def split_slash_last_def)
  have d: "bucket_name_of ''https://os.zhdk.cloud.switch.ch/envicloud/'' = ''envicloud''"
    by (simp add: bucket_name_of_def rstrip_slash_def split_slash_last_def)
  from rule_b_only_in_envidat_doi [OF a, of "''https://os.zhdk.cloud.switch.ch/envidat-doi/''"]
  have 1: "filter_content ''https://os.zhdk.cloud.switch.ch/envidat-doi/'' ?c = Skipped_doi_meta"
    by (simp add: k b e c)
  from rule_b_only_in_envidat_doi [OF a, of "''https://os.zhdk.cloud.switch.ch/envicloud/''"]
  have 2: "filter_content ''https://os.zhdk.cloud.switch.ch/envicloud/'' ?c
     = Written
         \<lparr>bucket_url = ''https://os.zhdk.cloud.switch.ch/envicloud/'',
          bucket_name = ''envicloud'',
          key = Some ''meta.json'',
          last_modified = Some ''2024-01-01'',
          etag = Some ''e1'',
          size_col = Some ''12'',
          storage_class = Some ''STANDARD'',
          owner_id = Some ''o1'',
          owner_display_name = Some [],
          type_col = Some []\<rparr>"
    by (simp add: d safe_find_text_def)
  from 1 2 show ?thesis by blast
qed

text \<open>
  Claim C4 as stated fails: the key \<open>dir/.json\<close> passes Rule A and the suffix from the
  last dot of its basename is \<open>.json\<close>, the extension by the rule of the
  specification, but in \<open>envidat-doi\<close> its row is written.
\<close>

theorem rule_b_dotfile_counterexample:
  "bucket_name_of ''https://os.zhdk.cloud.switch.ch/envidat-doi/'' = ''envidat-doi''
   \<and> \<not> py_in ''envidat.1'' (lower_key (entry ''dir/.json''))
   \<and> get_ext_spec lower (Some ''dir/.json'') = ''.json''
   \<and> filter_content ''https://os.zhdk.cloud.switch.ch/envidat-doi/'' (entry ''dir/.json'')
     = Written
         \<lparr>bucket_url = ''https://os.zhdk.cloud.switch.ch/envidat-doi/'',
          bucket_name = ''envidat-doi'',
          key = Some ''dir/.json'',
          last_modified = Some [],
          etag = Some [],
          size_col = Some [],
          storage_class = Some [],
          owner_id = Some [],
          owner_display_name = Some [],
          type_col = Some []\<rparr>"
  by (simp add: filter_content_def row_of_def lower_key_def key_or_empty_def entry_def
      safe_find_text_def lower_def lower_char_def bucket_name_of_def rstrip_slash_def
      split_slash_last_def splitext_def rfind_def slice_to_def slice_from_def skip_dots.simps
      get_ext_spec_def basename_def last_dot_suffix_def)

section \<open>Properties of the aggregation\<close>

subsection \<open>Grouped sums\<close>

lemma sum_list_indicator:
  "distinct ks \<Longrightarrow> k0 \<in> set ks
     \<Longrightarrow> sum_list (map (\<lambda>k. if k = k0 then v else 0) ks) = (v::'v::comm_monoid_add)"
proof (induction ks)
  case Nil
  then show ?case by simp
next
  case (Cons k ks)
  show ?case
  proof (cases "k = k0")
    case True
    with Cons.prems have "k0 \<notin> set ks" by simp
    then have "sum_list (map (\<lambda>k. if k = k0 then v else 0) ks) = 0"
      by (induction ks) auto
    with True show ?thesis by simp
  next
    case False
    with Cons show ?thesis by simp
  qed
qed

text \<open>The sums of the groups add up to the sum over the rows that have a key.\<close>

lemma sum_list_groups:
  fixes valf :: "'r \<Rightarrow> 'v::comm_monoid_add"
  assumes "distinct ks" and "\<And>x k. x \<in> set xs \<Longrightarrow> keyf x = Some k \<Longrightarrow> k \<in> set ks"
  shows "sum_list (map (\<lambda>k. sum_list (map valf (filter (\<lambda>r. keyf r = Some k) xs))) ks)
           = sum_list (map valf (filter (\<lambda>r. keyf r \<noteq> None) xs))"
  using assms(2)
proof (induction xs)
  case Nil
  show ?case by simp
next
  case (Cons x xs)
  have ih: "sum_list (map (\<lambda>k. sum_list (map valf (filter (\<lambda>r. keyf r = Some k) xs))) ks)
           = sum_list (map valf (filter (\<lambda>r. keyf r \<noteq> None) xs))"
    by (rule Cons.IH) (use Cons.prems in auto)
  show ?case
  proof (cases "keyf x")
    case None
    then show ?thesis using ih by simp
  next
    case (Some k0)
    have k0: "k0 \<in> set ks" by (rule Cons.prems [of x]) (simp_all add: Some)
    have "sum_list (map (\<lambda>k. sum_list (map valf (filter (\<lambda>r. keyf r = Some k) (x # xs)))) ks)
        = sum_list (map (\<lambda>k. (if k = k0 then valf x else 0)
             + sum_list (map valf (filter (\<lambda>r. keyf r = Some k) xs))) ks)"
      using Some by (intro arg_cong [where f = sum_list] map_cong) auto
    also have "\<dots> = sum_list (map (\<lambda>k. if k = k0 then valf x else 0) ks)
        + sum_list (map (\<lambda>k. sum_list (map valf (filter (\<lambda>r. keyf r = Some k) xs))) ks)"
      by (rule sum_list_addf)
    also have "\<dots> = valf x + sum_list (map valf (filter (\<lambda>r. keyf r \<noteq> None) xs))"
      using sum_list_indicator [OF assms(1) k0, of "valf x"] ih by (simp only:)
    finally show ?thesis using Some by simp
  qed
qed

lemma set_map_filter_keys:
  "set (List.map_filter keyf xs) = {k. \<exists>x\<in>set xs. keyf x = Some k}"
  by (induction xs) (auto split: option.splits)


lemma groupby_sum_total:
  fixes valf :: "'r \<Rightarrow> 'v::comm_monoid_add"
  shows "sum_list (map snd (groupby_sum keyf valf xs))
           = sum_list (map valf (filter (\<lambda>r. keyf r \<noteq> None) xs))"
proof -
  have "sum_list (map snd (groupby_sum keyf valf xs))
      = sum_list (map (\<lambda>k. sum_list (map valf (filter (\<lambda>r. keyf r = Some k) xs)))
          (sort (remdups (List.map_filter keyf xs))))"
    by (simp add: groupby_sum_def comp_def)
  also have "\<dots> = sum_list (map valf (filter (\<lambda>r. keyf r \<noteq> None) xs))"
    by (rule sum_list_groups) (auto simp: set_map_filter_keys)
  finally show ?thesis .
qed

lemma sum_list_insort_key:
  fixes g :: "'a \<Rightarrow> 'v::comm_monoid_add"
  shows "sum_list (map g (insort_key f x xs)) = g x + sum_list (map g xs)"
  by (induction xs) (auto simp: add.left_commute)

lemma sum_list_sort_key:
  fixes g :: "'a \<Rightarrow> 'v::comm_monoid_add"
  shows "sum_list (map g (sort_key f xs)) = sum_list (map g xs)"
  by (induction xs) (auto simp: sum_list_insort_key)

lemma sum_list_sort_values_desc:
  fixes g :: "('k \<times> 'w) \<Rightarrow> 'v::comm_monoid_add"
  shows "sum_list (map g (sort_values_desc to_int xs)) = sum_list (map g xs)"
  by (simp add: sort_values_desc_def rev_map [symmetric] sum_list_rev sum_list_sort_key)

subsection \<open>The sunburst invariant\<close>

text \<open>The invariant of a sunburst chart, given that \<open>to_int\<close> commutes with the sums.\<close>

lemma sunburst_tree_sums:
  fixes to_int :: "'v::comm_monoid_add \<Rightarrow> int"
  assumes add: "\<And>P. to_int (sum_list (map snd (filter P counts)))
                     = sum_list (map (\<lambda>x. to_int (snd x)) (filter P counts))"
  shows "tree_sums (sunburst root_label to_int counts)"
proof -
  define t where "t = sunburst root_label to_int counts"
  define buckets where "buckets = groupby_sum (\<lambda>x. Some (fst (fst x))) snd counts"
  have hd_t: "t \<noteq> []" "node_id (hd t) = ''root''"
    "node_value (hd t) = to_int (sum_list (map snd counts))"
    by (simp_all add: t_def sunburst_def)
  have below_root: "filter (\<lambda>n. node_parent n = ''root'') t
      = map (\<lambda>x. \<lparr>node_id = ''bucket:'' @ fst x, node_label = fst x, node_parent = ''root'',
                    node_value = to_int (snd x)\<rparr>) buckets"
    by (simp add: t_def buckets_def sunburst_def filter_map comp_def case_prod_beta)
  have bucket_children: "children_sum (''bucket:'' @ b) t
        = sum_list (map (\<lambda>y. to_int (snd y)) (filter (\<lambda>r. fst (fst r) = b) counts))" for b
    by (simp add: t_def children_sum_def sunburst_def filter_map comp_def case_prod_beta)
  have bucket_val: "to_int (snd x) = sum_list (map (\<lambda>y. to_int (snd y))
                      (filter (\<lambda>r. fst (fst r) = fst x) counts))"
    if "x \<in> set buckets" for x
  proof -
    from that have "snd x = sum_list (map snd (filter (\<lambda>r. fst (fst r) = fst x) counts))"
      by (auto simp: buckets_def groupby_sum_def)
    then show ?thesis using add [of "\<lambda>r. fst (fst r) = fst x"] by simp
  qed
  have "children_sum ''root'' t = sum_list (map (\<lambda>x. to_int (snd x)) buckets)"
    by (simp add: children_sum_def below_root comp_def)
  also have "\<dots> = sum_list (map snd
       (groupby_sum (\<lambda>x. Some (fst (fst x))) (\<lambda>y. to_int (snd y)) counts))"
  proof -
    have "map (\<lambda>x. to_int (snd x)) buckets
        = map snd (groupby_sum (\<lambda>x. Some (fst (fst x))) (\<lambda>y. to_int (snd y)) counts)"
      unfolding buckets_def groupby_sum_def map_map comp_def snd_conv
      by (rule map_cong [OF refl]) (use add in simp)
    then show ?thesis by simp
  qed
  also have "\<dots> = sum_list (map (\<lambda>y. to_int (snd y)) counts)"
    by (simp add: groupby_sum_total)
  also have "\<dots> = to_int (sum_list (map snd counts))"
    using add [of "\<lambda>r. True"] by simp
  finally have root: "node_value (hd t) = children_sum ''root'' t"
    using hd_t by simp
  have "list_all (\<lambda>n. node_value n = children_sum (node_id n) t)
           (filter (\<lambda>n. node_parent n = ''root'') t)"
    unfolding below_root by (simp add: list_all_iff bucket_children [simplified] bucket_val)
  with root hd_t show ?thesis by (simp add: tree_sums_def t_def)
qed

subsection \<open>Sums of 64-bit sizes\<close>

lemma sum_list_filter_le:
  fixes f :: "'a \<Rightarrow> int"
  assumes "\<And>x. x \<in> set xs \<Longrightarrow> 0 \<le> f x"
  shows "sum_list (map f (filter P xs)) \<le> sum_list (map f xs)"
  using assms by (induction xs) (auto simp: add_increasing)

lemma sint_sum_list:
  fixes ws :: "64 word list"
  assumes "\<And>w. w \<in> set ws \<Longrightarrow> 0 \<le> sint w" and "sum_list (map sint ws) < 2 ^ 63"
  shows "sint (sum_list ws) = sum_list (map sint ws)"
  using assms
proof (induction ws)
  case Nil
  show ?case by simp
next
  case (Cons w ws)
  have nn: "0 \<le> sint w" "0 \<le> sum_list (map sint ws)"
    using Cons.prems(1) by (auto intro!: sum_list_nonneg)
  with Cons.prems(2) have "sum_list (map sint ws) < 2 ^ 63" by simp
  with Cons have ih: "sint (sum_list ws) = sum_list (map sint ws)" by simp
  have "sint (w + sum_list ws) = signed_take_bit 63 (sint w + sint (sum_list ws))"
    by (simp add: sint_word_ariths)
  also have "\<dots> = sint w + sum_list (map sint ws)"
    using nn Cons.prems(2) by (simp add: ih signed_take_bit_int_eq_self)
  finally show ?case by simp
qed

lemma no_overflow_filter:
  assumes "no_overflow df"
  shows "sint (sum_list (map df_size_bytes (filter Q df)))
           = sum_list (map (\<lambda>r. sint (df_size_bytes r)) (filter Q df))"
proof -
  from assms have nn: "\<And>r. r \<in> set df \<Longrightarrow> 0 \<le> sint (df_size_bytes r)"
    and tot: "sum_list (map (\<lambda>r. sint (df_size_bytes r)) df) < 2 ^ 63"
    by (auto simp: no_overflow_def list_all_iff)
  have "sum_list (map (\<lambda>r. sint (df_size_bytes r)) (filter Q df))
          \<le> sum_list (map (\<lambda>r. sint (df_size_bytes r)) df)"
    by (rule sum_list_filter_le) (rule nn)
  with tot have "sum_list (map sint (map df_size_bytes (filter Q df))) < 2 ^ 63"
    by (simp add: comp_def)
  moreover have "\<And>w. w \<in> set (map df_size_bytes (filter Q df)) \<Longrightarrow> 0 \<le> sint w"
    using nn by auto
  ultimately have "sint (sum_list (map df_size_bytes (filter Q df)))
      = sum_list (map sint (map df_size_bytes (filter Q df)))"
    by (intro sint_sum_list) auto
  then show ?thesis by (simp add: comp_def)
qed

lemma no_overflow_groups:
  assumes "no_overflow df"
  shows "map (\<lambda>x. sint (snd x)) (groupby_sum keyf df_size_bytes df)
           = map snd (groupby_sum keyf (\<lambda>r. sint (df_size_bytes r)) df)"
  unfolding groupby_sum_def map_map comp_def snd_conv
  by (rule map_cong [OF refl]) (simp add: no_overflow_filter [OF assms])

lemma no_overflow_groups_add:
  assumes "no_overflow df"
  shows "sint (sum_list (map snd (filter P (groupby_sum keyf df_size_bytes df))))
           = sum_list (map (\<lambda>x. sint (snd x)) (filter P (groupby_sum keyf df_size_bytes df)))"
proof -
  let ?g = "groupby_sum keyf df_size_bytes df"
  let ?sz = "\<lambda>r. sint (df_size_bytes r)"
  from assms have nn: "\<And>r. r \<in> set df \<Longrightarrow> 0 \<le> ?sz r"
    and tot: "sum_list (map ?sz df) < 2 ^ 63"
    by (auto simp: no_overflow_def list_all_iff)
  have gnn: "0 \<le> sint (snd x)" if "x \<in> set ?g" for x
  proof -
    from that obtain k where "snd x = sum_list (map df_size_bytes (filter (\<lambda>r. keyf r = Some k) df))"
      by (auto simp: groupby_sum_def)
    then have "sint (snd x) = sum_list (map ?sz (filter (\<lambda>r. keyf r = Some k) df))"
      by (simp add: no_overflow_filter [OF assms])
    also have "0 \<le> \<dots>" using nn by (intro sum_list_nonneg) auto
    finally show ?thesis .
  qed
  have "sum_list (map (\<lambda>x. sint (snd x)) ?g) = sum_list (map ?sz (filter (\<lambda>r. keyf r \<noteq> None) df))"
    by (simp add: no_overflow_groups [OF assms] groupby_sum_total)
  also have "\<dots> \<le> sum_list (map ?sz df)"
    by (rule sum_list_filter_le) (rule nn)
  finally have gtot: "sum_list (map (\<lambda>x. sint (snd x)) ?g) < 2 ^ 63"
    using tot by simp
  have "sum_list (map (\<lambda>x. sint (snd x)) (filter P ?g)) \<le> sum_list (map (\<lambda>x. sint (snd x)) ?g)"
    by (rule sum_list_filter_le) (rule gnn)
  with gtot have "sum_list (map sint (map snd (filter P ?g))) < 2 ^ 63"
    by (simp add: comp_def)
  moreover have "\<And>w. w \<in> set (map snd (filter P ?g)) \<Longrightarrow> 0 \<le> sint w"
    using gnn by auto
  ultimately have "sint (sum_list (map snd (filter P ?g)))
      = sum_list (map sint (map snd (filter P ?g)))"
    by (intro sint_sum_list) auto
  then show ?thesis by (simp add: comp_def)
qed

lemma count_tree_sums: "tree_sums (sunburst root_label int (counts :: ((string \<times> string) \<times> nat) list))"
  by (rule sunburst_tree_sums) (simp add: sum_list_of_nat [symmetric] comp_def)

lemma count_flow_sum:
  "sum_list (flow_value (sankey lbl int
      (sort_values_desc int (groupby_sum (\<lambda>r. Some (extension r)) (\<lambda>r. 1::nat) df))))
   = int (length df)"
proof -
  have "sum_list (map (\<lambda>x. int (snd x)) (groupby_sum (\<lambda>r. Some (extension r)) (\<lambda>r. 1::nat) df))
      = int (sum_list (map snd (groupby_sum (\<lambda>r. Some (extension r)) (\<lambda>r. 1::nat) df)))"
    by (simp add: sum_list_of_nat [symmetric] comp_def)
  also have "\<dots> = int (length df)"
    by (simp add: groupby_sum_total sum_list_triv)
  finally show ?thesis by (simp add: sankey_def sum_list_sort_values_desc)
qed

lemma byte_flow_sum:
  assumes "no_overflow df"
  shows "sum_list (flow_value (sankey lbl sint
      (sort_values_desc sint (groupby_sum (\<lambda>r. Some (extension r)) df_size_bytes df))))
   = sum_list (map (\<lambda>r. sint (df_size_bytes r)) df)"
proof -
  have "sum_list (map (\<lambda>x. sint (snd x)) (groupby_sum (\<lambda>r. Some (extension r)) df_size_bytes df))
      = sum_list (map (\<lambda>r. sint (df_size_bytes r)) df)"
    by (simp add: no_overflow_groups [OF assms] groupby_sum_total)
  then show ?thesis by (simp add: sankey_def sum_list_sort_values_desc)
qed
lemma no_overflow_with_extension:
  "no_overflow df \<Longrightarrow> no_overflow (map (with_extension str_lower) df)"
  by (simp add: no_overflow_def list_all_iff with_extension_def comp_def)

text \<open>
  Claim C1, as amended. For every record set and every top-N setting, in the CountTree
  the root carries the sum of the bucket nodes and every bucket node the sum of its
  extension nodes, and the edges of the CountFlow add up to the number of records.
  When no size is negative and the exact total of the sizes is below \<open>2 ^ 63\<close>, the
  same holds of the ByteTree, and the edges of the ByteFlow add up to the global byte
  total, which is then the exact sum of the sizes.
\<close>

theorem aggregation_sums:
  "tree_sums (sunburst_counts (cmd_visualize str_lower top_n df))
   \<and> sum_list (flow_value (sankey_counts (cmd_visualize str_lower top_n df))) = int (length df)
   \<and> (no_overflow df \<longrightarrow>
        tree_sums (sunburst_bytes (cmd_visualize str_lower top_n df))
      \<and> sum_list (flow_value (sankey_bytes (cmd_visualize str_lower top_n df)))
          = sint (sum_list (map df_size_bytes df))
      \<and> sint (sum_list (map df_size_bytes df))
          = sum_list (map (\<lambda>r. sint (df_size_bytes r)) df))"
proof (intro conjI impI)
  let ?df = "map (with_extension str_lower) df"
  have sizes: "map df_size_bytes ?df = map df_size_bytes df"
    by (simp add: with_extension_def comp_def)
  show "tree_sums (sunburst_counts (cmd_visualize str_lower top_n df))"
    by (simp only: cmd_visualize_def build_charts_def charts.select_convs count_tree_sums)
  have "sum_list (flow_value (sankey_counts (cmd_visualize str_lower top_n df))) = int (length ?df)"
    by (simp only: cmd_visualize_def build_charts_def charts.select_convs count_flow_sum)
  then show "sum_list (flow_value (sankey_counts (cmd_visualize str_lower top_n df))) = int (length df)"
    by simp
  assume "no_overflow df"
  then have no: "no_overflow ?df" by (rule no_overflow_with_extension)
  show "tree_sums (sunburst_bytes (cmd_visualize str_lower top_n df))"
    unfolding cmd_visualize_def build_charts_def charts.select_convs df_counts_bytes_def
    by (rule sunburst_tree_sums) (rule no_overflow_groups_add [OF no])
  have "sint (sum_list (map df_size_bytes ?df))
          = sum_list (map (\<lambda>r. sint (df_size_bytes r)) ?df)"
    using no_overflow_filter [OF no, of "\<lambda>r. True"] by simp
  then have total: "sint (sum_list (map df_size_bytes df))
          = sum_list (map (\<lambda>r. sint (df_size_bytes r)) df)"
    unfolding sizes [symmetric] by (simp add: comp_def with_extension_def)
  then show "sint (sum_list (map df_size_bytes df))
          = sum_list (map (\<lambda>r. sint (df_size_bytes r)) df)" .
  have "sum_list (flow_value (sankey_bytes (cmd_visualize str_lower top_n df)))
          = sum_list (map (\<lambda>r. sint (df_size_bytes r)) ?df)"
    by (simp only: cmd_visualize_def build_charts_def charts.select_convs byte_flow_sum [OF no])
  also have "\<dots> = sum_list (map (\<lambda>r. sint (df_size_bytes r)) df)"
    by (simp add: comp_def with_extension_def)
  finally show "sum_list (flow_value (sankey_bytes (cmd_visualize str_lower top_n df)))
          = sint (sum_list (map df_size_bytes df))"
    using total by simp
qed

text \<open>
  A table within the 64-bit range: the ByteTree keeps the invariant and the edges of the
  ByteFlow add up to the 42 bytes of the table.
\<close>

theorem aggregation_sums_witness:
  "no_overflow df_small
   \<and> tree_sums (sunburst_bytes (cmd_visualize lower None df_small))
   \<and> sum_list (flow_value (sankey_bytes (cmd_visualize lower None df_small))) = 42"
proof -
  have h: "no_overflow df_small" by code_simp
  have s: "sint (sum_list (map df_size_bytes df_small)) = 42" by code_simp
  from aggregation_sums [of lower None df_small] h s show ?thesis by simp
qed

text \<open>
  Claim C1 as stated fails: for two objects of \<open>2 ^ 62\<close> bytes in one bucket the 64-bit
  sums wrap round. The bucket node carries \<open>- 2 ^ 63\<close>, while its two extension nodes
  add up to \<open>2 ^ 63\<close>.
\<close>

theorem byte_tree_overflow_counterexample:
  "\<not> tree_sums (sunburst_bytes (cmd_visualize lower None df_huge))
   \<and> map node_value (sunburst_bytes (cmd_visualize lower None df_huge))
      = [- 9223372036854775808, - 9223372036854775808,
         4611686018427387904, 4611686018427387904]
   \<and> children_sum ''bucket:edna'' (sunburst_bytes (cmd_visualize lower None df_huge))
      = 9223372036854775808"
  by code_simp

subsection \<open>The reduction to the top extensions\<close>














end
